theory Spec2Isabelle
  imports Complex_Main "HOL-Library.AList"
begin

section \<open>Strings and character classes\<close>

text \<open>
  A JavaScript string is a sequence of UTF-16 code units. The model reads an Isabelle
  \<^typ>\<open>string\<close> as the code units U+0000 .. U+00FF (ASCII and Latin-1), the range the
  analyser's regular expressions are written for; \<^const>\<open>length\<close> is
  \<^verbatim>\<open>text.length\<close>.
\<close>

definition isWs :: "char \<Rightarrow> bool" where
  \<comment> \<open>the class \<^verbatim>\<open>\s\<close>, also what \<^verbatim>\<open>trim()\<close> removes: TAB, LF, VT, FF, CR, SPACE, NBSP\<close>
  "isWs c = (c \<in> set [CHR 0x09, CHR 0x0A, CHR 0x0B, CHR 0x0C, CHR 0x0D, CHR 0x20, CHR 0xA0])"

definition isDigit :: "char \<Rightarrow> bool" where
  "isDigit c = (let n = (of_char c :: nat) in 48 \<le> n \<and> n \<le> 57)"

definition isWordChar :: "char \<Rightarrow> bool" where
  \<comment> \<open>the class \<^verbatim>\<open>\w\<close> = \<^verbatim>\<open>[A-Za-z0-9_]\<close>\<close>
  "isWordChar c = (let n = (of_char c :: nat) in
     (48 \<le> n \<and> n \<le> 57) \<or> (65 \<le> n \<and> n \<le> 90) \<or> n = 95 \<or> (97 \<le> n \<and> n \<le> 122))"

definition toLowerChar :: "char \<Rightarrow> char" where
  \<comment> \<open>A-Z and the Latin-1 capitals U+00C0 .. U+00DE (without the sign U+00D7) move up by 32\<close>
  "toLowerChar c = (let n = (of_char c :: nat) in
     if (65 \<le> n \<and> n \<le> 90) \<or> (192 \<le> n \<and> n \<le> 222 \<and> n \<noteq> 215)
     then char_of (n + 32) else c)"

definition toLowerCase :: "string \<Rightarrow> string" where
  "toLowerCase s = map toLowerChar s"

definition trim :: "string \<Rightarrow> string" where
  "trim s = rev (dropWhile isWs (rev (dropWhile isWs s)))"

fun showNat :: "nat \<Rightarrow> string" where
  \<comment> \<open>the decimal digits of a number, as a template literal prints it\<close>
  "showNat n = (if n < 10 then [char_of (48 + n)]
                else showNat (n div 10) @ [char_of (48 + n mod 10)])"

declare showNat.simps [simp del]

fun containsStr :: "string \<Rightarrow> string \<Rightarrow> bool" where
  \<comment> \<open>\<^verbatim>\<open>s.includes(p)\<close>\<close>
  "containsStr p [] = (p = [])"
| "containsStr p (c # cs) = (take (length p) (c # cs) = p \<or> containsStr p cs)"

text \<open>
  The values the analyser stores and returns besides strings of text: a count, a string
  that took the place of a count, and the two objects a lookup can find on
  \<^verbatim>\<open>Object.prototype\<close>.
\<close>

datatype jsval = Undefined | Num nat | Str string | ObjectFn | ObjectProto


section \<open>Regular expressions\<close>

text \<open>
  A regular expression without look-behind is modelled by its matcher: applied to the
  rest of the text at some position, it gives the length of the match that starts there
  (the one the backtracking engine finds first), or \<open>None\<close>. No expression of this
  program matches the empty string, so a match has at least one character.
\<close>

type_synonym matcher = "string \<Rightarrow> nat option"

function replaceAll :: "matcher \<Rightarrow> string \<Rightarrow> string \<Rightarrow> string" where
  \<comment> \<open>\<^verbatim>\<open>s.replace(/re/g, rep)\<close>: every match, left to right, none overlapping\<close>
  "replaceAll m rep [] = []"
| "replaceAll m rep (c # cs) =
     (case m (c # cs) of
        None \<Rightarrow> c # replaceAll m rep cs
      | Some n \<Rightarrow> rep @ replaceAll m rep (drop (n - 1) cs))"
  by pat_completeness auto
termination
  by (relation "measure (\<lambda>(m, rep, s). length s)") auto

function matchAll :: "matcher \<Rightarrow> string \<Rightarrow> string list" where
  \<comment> \<open>the matches \<^verbatim>\<open>s.match(/re/g)\<close> collects\<close>
  "matchAll m [] = []"
| "matchAll m (c # cs) =
     (case m (c # cs) of
        None \<Rightarrow> matchAll m cs
      | Some n \<Rightarrow> take n (c # cs) # matchAll m (drop (n - 1) cs))"
  by pat_completeness auto
termination
  by (relation "measure (\<lambda>(m, s). length s)") auto

definition jsMatch :: "matcher \<Rightarrow> string \<Rightarrow> string list option" where
  \<comment> \<open>\<^verbatim>\<open>match\<close> returns \<^verbatim>\<open>null\<close>, not an empty array, when nothing matches\<close>
  "jsMatch m s = (let r = matchAll m s in if r = [] then None else Some r)"

function splitBy :: "matcher \<Rightarrow> string \<Rightarrow> string \<Rightarrow> string list" where
  \<comment> \<open>\<^verbatim>\<open>s.split(/re/)\<close>; the second argument is the piece read so far\<close>
  "splitBy m piece [] = [piece]"
| "splitBy m piece (c # cs) =
     (case m (c # cs) of
        None \<Rightarrow> splitBy m (piece @ [c]) cs
      | Some n \<Rightarrow> piece # splitBy m [] (drop (n - 1) cs))"
  by pat_completeness auto
termination
  by (relation "measure (\<lambda>(m, piece, s). length s)") auto

fun findFrom :: "matcher \<Rightarrow> nat \<Rightarrow> string \<Rightarrow> nat option" where
  \<comment> \<open>the end index of the leftmost match in the rest of the text that starts at index \<open>i\<close>\<close>
  "findFrom m i [] = None"
| "findFrom m i (c # cs) =
     (case m (c # cs) of Some n \<Rightarrow> Some (i + n) | None \<Rightarrow> findFrom m (Suc i) cs)"

definition regexTest :: "matcher \<Rightarrow> string \<Rightarrow> nat \<Rightarrow> bool \<times> nat" where
  \<comment> \<open>\<^verbatim>\<open>re.test(text)\<close> for an expression with the \<^verbatim>\<open>g\<close> flag: the search starts at
      \<^verbatim>\<open>re.lastIndex\<close>, a match moves \<^verbatim>\<open>lastIndex\<close> to its end, a failure resets it to 0;
      the result is the answer and the new \<^verbatim>\<open>lastIndex\<close>\<close>
  "regexTest m text lastIndex =
     (if length text < lastIndex then (False, 0)
      else case findFrom m lastIndex (drop lastIndex text) of
             Some e \<Rightarrow> (True, e)
           | None \<Rightarrow> (False, 0))"

definition runAt :: "(char \<Rightarrow> bool) \<Rightarrow> matcher" where
  \<comment> \<open>\<^verbatim>\<open>/[class]+/\<close>: the longest run of characters of the class\<close>
  "runAt p s = (let run = takeWhile p s in if run = [] then None else Some (length run))"

definition urlAt :: matcher where
  \<comment> \<open>\<^verbatim>\<open>URL_REGEX = /(https?:\/\/[^\s]+)/g\<close>\<close>
  "urlAt s =
     (let k = (if take 8 s = ''https://'' then 8 else 7);
          run = takeWhile (\<lambda>c. \<not> isWs c) (drop k s)
      in if (take 8 s = ''https://'' \<or> take 7 s = ''http://'') \<and> run \<noteq> []
         then Some (k + length run) else None)"

definition htmlTagAt :: matcher where
  \<comment> \<open>\<^verbatim>\<open>HTML_TAG_REGEX = /<[^>]*>/g\<close>: from a \<^verbatim>\<open><\<close> to the next \<^verbatim>\<open>>\<close>\<close>
  "htmlTagAt s =
     (case s of
        [] \<Rightarrow> None
      | c # cs \<Rightarrow>
          if c = CHR ''<'' \<and> CHR ''>'' \<in> set cs
          then Some (length (takeWhile (\<lambda>x. x \<noteq> CHR ''>'') cs) + 2)
          else None)"

definition isSpecialChar :: "char \<Rightarrow> bool" where
  \<comment> \<open>the class \<^verbatim>\<open>[^\w\s.,!?-]\<close>\<close>
  "isSpecialChar c = (\<not> isWordChar c \<and> \<not> isWs c \<and> c \<notin> set ''.,!?-'')"

definition specialCharAt :: matcher where
  \<comment> \<open>\<^verbatim>\<open>SPECIAL_CHARS_REGEX = /[^\w\s.,!?-]/g\<close>\<close>
  "specialCharAt s = (case s of [] \<Rightarrow> None | c # cs \<Rightarrow> if isSpecialChar c then Some 1 else None)"

definition isPunct :: "char \<Rightarrow> bool" where
  \<comment> \<open>the class \<^verbatim>\<open>[.,!?]\<close>\<close>
  "isPunct c = (c \<in> set ''.,!?'')"

definition isSentenceEnd :: "char \<Rightarrow> bool" where
  \<comment> \<open>the class \<^verbatim>\<open>[.!?]\<close>\<close>
  "isSentenceEnd c = (c \<in> set ''.!?'')"

definition sentenceEndAt :: matcher where
  \<comment> \<open>\<^verbatim>\<open>/[.!?]+\s*/\<close>\<close>
  "sentenceEndAt s =
     (let ps = takeWhile isSentenceEnd s
      in if ps = [] then None
         else Some (length ps + length (takeWhile isWs (dropWhile isSentenceEnd s))))"

definition paragraphBreakAt :: matcher where
  \<comment> \<open>\<^verbatim>\<open>/\n\s*\n/\<close>: a line feed, then the white space that follows up to its last line feed\<close>
  "paragraphBreakAt s =
     (case s of
        [] \<Rightarrow> None
      | c # cs \<Rightarrow>
          (let run = takeWhile isWs cs;
               upto = length (dropWhile (\<lambda>x. x \<noteq> CHR 0x0A) (rev run))
           in if c = CHR 0x0A \<and> 0 < upto then Some (1 + upto) else None))"

function wordMatches :: "string \<Rightarrow> string list" where
  \<comment> \<open>the matches of \<^verbatim>\<open>/\b\w+\b/g\<close>: the maximal runs of word characters\<close>
  "wordMatches [] = []"
| "wordMatches (c # cs) =
     (if isWordChar c
      then (c # takeWhile isWordChar cs) # wordMatches (dropWhile isWordChar cs)
      else wordMatches cs)"
  by pat_completeness auto
termination
  by (relation "measure length") (auto simp: le_imp_less_Suc length_dropWhile_le)

definition extractWords :: "string \<Rightarrow> string list" where
  \<comment> \<open>\<^verbatim>\<open>s.match(/\b\w+\b/g) || []\<close>\<close>
  "extractWords s = (let r = wordMatches s in case (if r = [] then None else Some r) of
                       None \<Rightarrow> [] | Some ws \<Rightarrow> ws)"


section \<open>Validation and sanitisation (utils/textValidation.js)\<close>

definition MAX_TEXT_LENGTH :: nat where
  "MAX_TEXT_LENGTH = 100000"

definition MIN_TEXT_LENGTH :: nat where
  "MIN_TEXT_LENGTH = 10"

record ValidationResult =
  isValid :: bool
  message :: string

definition validateText :: "string \<Rightarrow> ValidationResult" where
  "validateText text =
     (if text = [] then
        \<lparr>isValid = False, message = ''Please enter some text to analyze.''\<rparr>
      else if length text < MIN_TEXT_LENGTH then
        \<lparr>isValid = False,
         message = ''Text is too short. Minimum length is '' @ showNat MIN_TEXT_LENGTH @ '' characters.''\<rparr>
      else if MAX_TEXT_LENGTH < length text then
        \<lparr>isValid = False,
         message = ''Text is too long. Maximum length is '' @ showNat MAX_TEXT_LENGTH @ '' characters.''\<rparr>
      else \<lparr>isValid = True, message = []\<rparr>)"

definition sanitizeText :: "string \<Rightarrow> string" where
  \<comment> \<open>\<^verbatim>\<open>replace\<close> with a \<^verbatim>\<open>g\<close> expression starts from \<^verbatim>\<open>lastIndex = 0\<close> and leaves it 0,
      so the string returned does not depend on the expressions' state\<close>
  "sanitizeText text =
     (if text = [] then []
      else trim (replaceAll (runAt isWs) '' ''
                  (replaceAll urlAt [] (replaceAll htmlTagAt [] text))))"

text \<open>
  The three expressions are module-level objects with the \<^verbatim>\<open>g\<close> flag, so each keeps a
  \<^verbatim>\<open>lastIndex\<close> between calls of \<^verbatim>\<open>test\<close>. That is the state
  \<^verbatim>\<open>checkTextSafety\<close> reads and writes.
\<close>

record regexState =
  urlLastIndex :: nat
  htmlLastIndex :: nat
  specialLastIndex :: nat

definition initialState :: regexState where
  \<comment> \<open>as the module is loaded\<close>
  "initialState = \<lparr>urlLastIndex = 0, htmlLastIndex = 0, specialLastIndex = 0\<rparr>"

definition sanitizeTextState :: "regexState \<Rightarrow> string \<Rightarrow> regexState" where
  \<comment> \<open>what a call of \<^verbatim>\<open>sanitizeText\<close> leaves in the shared expressions: \<^verbatim>\<open>replace\<close> ends with
      \<^verbatim>\<open>lastIndex = 0\<close> in \<^verbatim>\<open>HTML_TAG_REGEX\<close> and \<^verbatim>\<open>URL_REGEX\<close>; the empty text returns before\<close>
  "sanitizeTextState st text =
     (if text = [] then st else st\<lparr>urlLastIndex := 0, htmlLastIndex := 0\<rparr>)"

record SafetyResult =
  isSafe :: bool
  message :: string

definition checkTextSafety :: "regexState \<Rightarrow> string \<Rightarrow> SafetyResult \<times> regexState" where
  "checkTextSafety st text =
     (let (containsUrls, u) = regexTest urlAt text (urlLastIndex st);
          (containsHtml, h) = regexTest htmlTagAt text (htmlLastIndex st);
          (containsSpecialChars, p) = regexTest specialCharAt text (specialLastIndex st);
          st' = \<lparr>urlLastIndex = u, htmlLastIndex = h, specialLastIndex = p\<rparr>
      in if containsUrls \<or> containsHtml then
           (\<lparr>isSafe = False,
             message = ''Text contains potentially unsafe content (URLs or HTML tags).''\<rparr>, st')
         else if containsSpecialChars then
           (\<lparr>isSafe = True,
             message = ''Text contains special characters that may affect analysis accuracy.''\<rparr>, st')
         else (\<lparr>isSafe = True, message = []\<rparr>, st'))"

definition normalizeText :: "string \<Rightarrow> string" where
  "normalizeText text =
     trim (replaceAll (runAt isPunct) ''.'' (replaceAll (runAt isWs) '' '' (toLowerCase text)))"


section \<open>Analysis (utils/textAnalysis.js)\<close>

subsection \<open>Basic metrics\<close>

definition toFixed2 :: "nat \<Rightarrow> nat \<Rightarrow> string" where
  \<comment> \<open>\<^verbatim>\<open>(a / b).toFixed(2)\<close> for \<open>b > 0\<close>: the nearest multiple of 1/100, a tie going up.
      The source rounds the double nearest to \<open>a / b\<close>, the model the exact quotient; they
      agree unless the quotient is within the error of a double of a tie.\<close>
  "toFixed2 a b =
     (let n = (200 * a + b) div (2 * b)
      in showNat (n div 100) @ ''.'' @ showNat (n mod 100 div 10) @ showNat (n mod 10))"

record BasicMetrics =
  charCount :: nat
  charNoSpacesCount :: nat
  wordCount :: nat
  sentenceCount :: nat
  paragraphCount :: nat
  avgWordLength :: jsval

definition calculateBasicMetrics :: "string \<Rightarrow> BasicMetrics" where
  \<comment> \<open>\<^verbatim>\<open>filter(Boolean)\<close> drops the empty pieces; \<^verbatim>\<open>replace(/\s/g, '')\<close> drops the white space\<close>
  "calculateBasicMetrics text =
     (let normalizedText = normalizeText text;
          words = extractWords normalizedText;
          sentences = filter (\<lambda>s. s \<noteq> []) (splitBy sentenceEndAt [] text);
          paragraphs = filter (\<lambda>s. s \<noteq> []) (splitBy paragraphBreakAt [] text);
          noSpaces = filter (\<lambda>c. \<not> isWs c) text
      in \<lparr>charCount = length text,
          charNoSpacesCount = length noSpaces,
          wordCount = length words,
          sentenceCount = length sentences,
          paragraphCount = length paragraphs,
          avgWordLength = (if 0 < length words
                           then Str (toFixed2 (length noSpaces) (length words))
                           else Num 0)\<rparr>)"

subsection \<open>Syllables\<close>

fun endingAt :: "string \<Rightarrow> bool" where
  \<comment> \<open>\<^verbatim>\<open>(?:[^laeiouy]es|ed|[^laeiouy]e)$\<close> matches exactly the rest of the word\<close>
  "endingAt [x, e, s] = (x \<notin> set ''laeiouy'' \<and> e = CHR ''e'' \<and> s = CHR ''s'')"
| "endingAt [a, b] = ((a = CHR ''e'' \<and> b = CHR ''d'') \<or> (a \<notin> set ''laeiouy'' \<and> b = CHR ''e''))"
| "endingAt _ = False"

fun stripEnding :: "string \<Rightarrow> string" where
  \<comment> \<open>\<^verbatim>\<open>word.replace(/(?:[^laeiouy]es|ed|[^laeiouy]e)$/, '')\<close>: the leftmost match only\<close>
  "stripEnding [] = []"
| "stripEnding (c # cs) = (if endingAt (c # cs) then [] else c # stripEnding cs)"

fun stripLeadingY :: "string \<Rightarrow> string" where
  \<comment> \<open>\<^verbatim>\<open>word.replace(/^y/, '')\<close>\<close>
  "stripLeadingY [] = []"
| "stripLeadingY (c # cs) = (if c = CHR ''y'' then cs else c # cs)"

definition isVowel :: "char \<Rightarrow> bool" where
  \<comment> \<open>the class \<^verbatim>\<open>[aeiouy]\<close>\<close>
  "isVowel c = (c \<in> set ''aeiouy'')"

fun vowelGroupAt :: matcher where
  \<comment> \<open>\<^verbatim>\<open>/[aeiouy]{1,2}/\<close>: two vowels where there are two, else one\<close>
  "vowelGroupAt [] = None"
| "vowelGroupAt [c] = (if isVowel c then Some 1 else None)"
| "vowelGroupAt (c # d # cs) = (if isVowel c then (if isVowel d then Some 2 else Some 1) else None)"

definition countNuclei :: "string \<Rightarrow> nat" where
  \<comment> \<open>\<^verbatim>\<open>syllables ? syllables.length : 1\<close>\<close>
  "countNuclei word =
     (case jsMatch vowelGroupAt word of None \<Rightarrow> 1 | Some syllables \<Rightarrow> length syllables)"

definition countSyllablesInWord :: "string \<Rightarrow> nat" where
  "countSyllablesInWord word0 =
     (let word = toLowerCase word0
      in if length word \<le> 3 then 1
         else countNuclei (stripLeadingY (stripEnding word)))"

subsection \<open>Readability formulas\<close>

text \<open>
  The counts are numbers; the model computes with reals. A division by zero gives a
  JavaScript number that is not finite; the model returns \<open>None\<close> for it.
\<close>

definition jsDiv :: "real \<Rightarrow> real \<Rightarrow> real option" where
  "jsDiv a b = (if b = 0 then None else Some (a / b))"

definition calculateFleschReadingEase :: "real \<Rightarrow> real \<Rightarrow> real \<Rightarrow> real option" where
  "calculateFleschReadingEase nWords nSentences nSyllables =
     (if nWords = 0 \<or> nSentences = 0 then Some 0
      else case (jsDiv nWords nSentences, jsDiv nSyllables nWords) of
             (Some wps, Some spw) \<Rightarrow> Some (206.835 - 1.015 * wps - 84.6 * spw)
           | _ \<Rightarrow> None)"

definition calculateFleschKincaidGrade :: "real \<Rightarrow> real \<Rightarrow> real \<Rightarrow> real option" where
  "calculateFleschKincaidGrade nWords nSentences nSyllables =
     (if nWords = 0 \<or> nSentences = 0 then Some 0
      else case (jsDiv nWords nSentences, jsDiv nSyllables nWords) of
             (Some wps, Some spw) \<Rightarrow> Some (0.39 * wps + 11.8 * spw - 15.59)
           | _ \<Rightarrow> None)"

definition calculateColemanLiauIndex :: "real \<Rightarrow> real \<Rightarrow> real \<Rightarrow> real option" where
  "calculateColemanLiauIndex nChars nWords nSentences =
     (if nWords = 0 \<or> nSentences = 0 then Some 0
      else case (jsDiv nChars nWords, jsDiv nSentences nWords) of
             (Some cpw, Some spw) \<Rightarrow>
               (let L = cpw * 100; S = spw * 100 in Some (0.0588 * L - 0.296 * S - 15.8))
           | _ \<Rightarrow> None)"

subsection \<open>Word frequency\<close>

text \<open>
  \<^verbatim>\<open>wordFreq\<close> is a plain object: its own properties are kept in the order they were
  created, a lookup that finds no own property goes on to \<^verbatim>\<open>Object.prototype\<close>, and
  \<^verbatim>\<open>Object.entries\<close> lists the keys that are array indices first, in ascending numeric
  order, then the other keys in creation order.
\<close>

type_synonym wordFreq = "(string \<times> jsval) list"

definition objectFnString :: string where
  \<comment> \<open>what \<^verbatim>\<open>Object + 1\<close> converts the constructor function to\<close>
  "objectFnString = ''function Object() { [native code] }''"

definition getProperty :: "wordFreq \<Rightarrow> string \<Rightarrow> jsval" where
  \<comment> \<open>\<^verbatim>\<open>wordFreq[word]\<close>\<close>
  "getProperty obj w =
     (case map_of obj w of
        Some v \<Rightarrow> v
      | None \<Rightarrow> if w = ''constructor'' then ObjectFn
                else if w = ''__proto__'' then ObjectProto
                else Undefined)"

fun nextCount :: "jsval \<Rightarrow> jsval" where
  \<comment> \<open>\<^verbatim>\<open>(v || 0) + 1\<close>: a truthy value that is not a number is converted to a string\<close>
  "nextCount Undefined = Num 1"
| "nextCount (Num n) = Num (n + 1)"
| "nextCount (Str s) = (if s = [] then Num 1 else Str (s @ ''1''))"
| "nextCount ObjectFn = Str (objectFnString @ ''1'')"
| "nextCount ObjectProto = Str ''[object Object]1''"

definition setProperty :: "wordFreq \<Rightarrow> string \<Rightarrow> jsval \<Rightarrow> wordFreq" where
  \<comment> \<open>\<^verbatim>\<open>wordFreq[word] = v\<close> for a number or string \<open>v\<close>: the setter of \<^verbatim>\<open>__proto__\<close>
      ignores such a value; any other key is updated in place or created last\<close>
  "setProperty obj w v = (if w = ''__proto__'' then obj else AList.update w v obj)"

definition countWord :: "nat \<Rightarrow> wordFreq \<Rightarrow> string \<Rightarrow> wordFreq" where
  \<comment> \<open>the body of the \<^verbatim>\<open>forEach\<close>\<close>
  "countWord minLength obj word =
     (if minLength < length word then setProperty obj word (nextCount (getProperty obj word))
      else obj)"

definition decimalValue :: "string \<Rightarrow> nat" where
  "decimalValue w = foldl (\<lambda>n c. 10 * n + (of_char c - 48)) 0 w"

definition isArrayIndex :: "string \<Rightarrow> bool" where
  \<comment> \<open>the decimal digits, without a leading zero, of an integer below \<open>2^32 - 1\<close>\<close>
  "isArrayIndex w =
     (w \<noteq> [] \<and> list_all isDigit w \<and> (w = ''0'' \<or> hd w \<noteq> CHR ''0'') \<and> decimalValue w < 4294967295)"

definition objectEntries :: "wordFreq \<Rightarrow> (string \<times> jsval) list" where
  "objectEntries obj =
     sort_key (\<lambda>e. decimalValue (fst e)) (filter (\<lambda>e. isArrayIndex (fst e)) obj)
     @ filter (\<lambda>e. \<not> isArrayIndex (fst e)) obj"

fun toNumber :: "jsval \<Rightarrow> int option" where
  \<comment> \<open>the operands of \<^verbatim>\<open>b - a\<close> as numbers, \<open>None\<close> for \<^verbatim>\<open>NaN\<close>; the strings
      \<^const>\<open>nextCount\<close> builds are not numerals\<close>
  "toNumber (Num n) = Some (int n)"
| "toNumber _ = None"

definition compareCounts :: "string \<times> jsval \<Rightarrow> string \<times> jsval \<Rightarrow> int" where
  \<comment> \<open>\<^verbatim>\<open>([,a], [,b]) => b - a\<close>; the sort reads \<^verbatim>\<open>NaN\<close> as 0\<close>
  "compareCounts x y =
     (case (toNumber (snd y), toNumber (snd x)) of
        (Some b, Some a) \<Rightarrow> b - a
      | _ \<Rightarrow> 0)"

fun insertBy :: "('a \<Rightarrow> 'a \<Rightarrow> int) \<Rightarrow> 'a \<Rightarrow> 'a list \<Rightarrow> 'a list" where
  "insertBy cmp x [] = [x]"
| "insertBy cmp x (y # ys) = (if cmp x y \<le> 0 then x # y # ys else y # insertBy cmp x ys)"

definition jsSort :: "('a \<Rightarrow> 'a \<Rightarrow> int) \<Rightarrow> 'a list \<Rightarrow> 'a list" where
  \<comment> \<open>\<^verbatim>\<open>Array.prototype.sort\<close> is stable; for a consistent comparator every stable sort
      gives this result. With \<^verbatim>\<open>NaN\<close> among the differences the language leaves the
      order to the engine, and the model's order there is one of the possible ones.\<close>
  "jsSort cmp xs = foldr (insertBy cmp) xs []"

definition sliceFromStart :: "'a list \<Rightarrow> int \<Rightarrow> 'a list" where
  \<comment> \<open>\<^verbatim>\<open>xs.slice(0, e)\<close>: a negative \<open>e\<close> counts from the end of the array\<close>
  "sliceFromStart xs e =
     (let len = int (length xs);
          final = (if e < 0 then max (len + e) 0 else min e len)
      in take (nat final) xs)"

definition analyzeWordFrequency :: "string \<Rightarrow> nat \<Rightarrow> int \<Rightarrow> (string \<times> jsval) list" where
  \<comment> \<open>the source's defaults are \<open>minLength = 2\<close> and \<open>maxWords = 10\<close>; \<open>maxWords\<close> is any
      integer, as \<^verbatim>\<open>slice\<close> reads it\<close>
  "analyzeWordFrequency text minLength maxWords =
     (let words = extractWords (normalizeText text);
          wordFreq = foldl (countWord minLength) [] words
      in sliceFromStart (jsSort compareCounts (objectEntries wordFreq)) maxWords)"


subsection \<open>Orders on the returned entries\<close>

fun countGe :: "jsval \<Rightarrow> jsval \<Rightarrow> bool" where
  \<comment> \<open>both are counts, and the first is not below the second\<close>
  "countGe (Num a) (Num b) = (b \<le> a)"
| "countGe _ _ = False"

definition firstIndex :: "string list \<Rightarrow> string \<Rightarrow> nat" where
  \<comment> \<open>the position at which a word is first encountered in the token stream\<close>
  "firstIndex ws w = length (takeWhile (\<lambda>x. x \<noteq> w) ws)"

definition descendingWithTies ::
  "(string \<Rightarrow> string \<Rightarrow> bool) \<Rightarrow> (string \<times> jsval) list \<Rightarrow> bool" where
  \<comment> \<open>counts descend along the sequence, and of two entries with the same count the
      earlier one's word comes before the later one's\<close>
  "descendingWithTies before r =
     sorted_wrt (\<lambda>x y. countGe (snd x) (snd y) \<and> (snd x = snd y \<longrightarrow> before (fst x) (fst y))) r"

definition encounterOrder :: "string list \<Rightarrow> string \<Rightarrow> string \<Rightarrow> bool" where
  \<comment> \<open>the specification's tie-break: first encountered first\<close>
  "encounterOrder ws a b = (firstIndex ws a < firstIndex ws b)"

definition keyOrder :: "string list \<Rightarrow> string \<Rightarrow> string \<Rightarrow> bool" where
  \<comment> \<open>the order of the keys of an object: array indices first, ascending by value, then
      the other keys, first encountered first\<close>
  "keyOrder ws a b =
     (if isArrayIndex a then (isArrayIndex b \<longrightarrow> decimalValue a < decimalValue b)
      else \<not> isArrayIndex b \<and> firstIndex ws a < firstIndex ws b)"

subsection \<open>The ending rule as the specification words it\<close>

text \<open>
  Strip, from the end of the word: a consonant followed by \<^verbatim>\<open>es\<close>, or \<^verbatim>\<open>ed\<close>, or a
  consonant followed by a single \<^verbatim>\<open>e\<close>. The rule is read off the last three characters;
  which characters count as consonants is a parameter.
\<close>

definition stripEndingSpec :: "(char \<Rightarrow> bool) \<Rightarrow> string \<Rightarrow> string" where
  "stripEndingSpec consonant w =
     (let n = length w in
      if 3 \<le> n \<and> consonant (w ! (n - 3)) \<and> drop (n - 2) w = ''es'' then take (n - 3) w
      else if 2 \<le> n \<and> drop (n - 2) w = ''ed'' then take (n - 2) w
      else if 2 \<le> n \<and> consonant (w ! (n - 2)) \<and> drop (n - 1) w = ''e'' then take (n - 2) w
      else w)"

definition consonantSpec :: "char \<Rightarrow> bool" where
  \<comment> \<open>the specification: not one of a, e, i, o, u, y\<close>
  "consonantSpec c = (c \<notin> set ''aeiouy'')"

definition consonantAmended :: "char \<Rightarrow> bool" where
  \<comment> \<open>not one of l, a, e, i, o, u, y\<close>
  "consonantAmended c = (c \<notin> set ''laeiouy'')"


section \<open>Normal forms\<close>

text \<open>
  A text is free of runs of a character class when every character of the class in it is
  the replacement character and is not followed by another character of the class: the
  shape \<^verbatim>\<open>replace(/[class]+/g, r)\<close> produces.
\<close>

fun runFree :: "(char \<Rightarrow> bool) \<Rightarrow> char \<Rightarrow> string \<Rightarrow> bool" where
  "runFree p r [] = True"
| "runFree p r (c # cs) = ((p c \<longrightarrow> c = r \<and> (cs = [] \<or> \<not> p (hd cs))) \<and> runFree p r cs)"

text \<open>
  A text has no match of an expression when the matcher fails at every position;
  \<^verbatim>\<open>replace\<close> then leaves it as it is.
\<close>

fun noMatch :: "matcher \<Rightarrow> string \<Rightarrow> bool" where
  "noMatch m [] = True"
| "noMatch m (c # cs) = (m (c # cs) = None \<and> noMatch m cs)"

definition scheme :: "string \<Rightarrow> bool" where
  \<comment> \<open>the two ways \<^verbatim>\<open>https?:\/\/\<close> can match\<close>
  "scheme p = (p = ''https://'' \<or> p = ''http://'')"

text \<open>
  The invariant of the counting loop, after the words \<open>pre\<close> have been read: the keys
  of the object are distinct, every value is a count, the keys are exactly the words read
  that are long enough (and are not \<^verbatim>\<open>__proto__\<close>), in the order of their first encounter.
\<close>

definition freqInv :: "nat \<Rightarrow> string list \<Rightarrow> wordFreq \<Rightarrow> bool" where
  "freqInv m pre obj =
     (distinct (map fst obj)
      \<and> (\<forall>v \<in> snd ` set obj. \<exists>n. v = Num n)
      \<and> set (map fst obj) \<subseteq> set pre
      \<and> (\<forall>w \<in> set pre. m < length w \<and> w \<noteq> ''__proto__'' \<longrightarrow> w \<in> set (map fst obj))
      \<and> sorted_wrt (\<lambda>a b. firstIndex pre a < firstIndex pre b) (map fst obj))"

declare replaceAll.simps(2) [simp del]


section \<open>Evaluation on concrete texts\<close>

lemma eq_char_of_iff: "c = char_of (n::nat) \<longleftrightarrow> take_bit 8 n = of_char c"
  using char_of_eq_iff [of n c] by auto

lemmas char_eval =
  char_of_eq_iff eq_char_of_iff isWs_def isWordChar_def isDigit_def toLowerChar_def toLowerCase_def
  isPunct_def isSentenceEnd_def isSpecialChar_def isVowel_def

lemma showNat_MIN_TEXT_LENGTH: "showNat MIN_TEXT_LENGTH = ''10''"
  by (simp add: MIN_TEXT_LENGTH_def showNat.simps char_of_eq_iff)

lemma showNat_MAX_TEXT_LENGTH: "showNat MAX_TEXT_LENGTH = ''100000''"
  by (simp add: MAX_TEXT_LENGTH_def showNat.simps char_of_eq_iff)


section \<open>The safety check keeps state between calls\<close>

text \<open>
  C1 claims that \<^verbatim>\<open>checkTextSafety\<close> is a function of its text alone, so that two calls
  on the same text give the same result. The code does not do that: the first call on
  \<^verbatim>\<open><b>\<close> from the freshly loaded module finds the tag and reports the text unsafe, and
  leaves \<^verbatim>\<open>HTML_TAG_REGEX.lastIndex\<close> at 3; the second call on the same text searches from
  there, finds no tag, and lets the text pass with the advisory about special characters.
\<close>

theorem checkTextSafety_second_call_differs:
  "fst (checkTextSafety initialState ''<b>'') =
     \<lparr>isSafe = False,
      message = ''Text contains potentially unsafe content (URLs or HTML tags).''\<rparr>
   \<and> htmlLastIndex (snd (checkTextSafety initialState ''<b>'')) = 3
   \<and> fst (checkTextSafety (snd (checkTextSafety initialState ''<b>'')) ''<b>'') =
     \<lparr>isSafe = True,
      message = ''Text contains special characters that may affect analysis accuracy.''\<rparr>"
  by (simp add: checkTextSafety_def initialState_def regexTest_def urlAt_def htmlTagAt_def
      specialCharAt_def char_eval Let_def)


section \<open>Basic metrics of the example sentence\<close>

text \<open>
  C2 claims that \<^verbatim>\<open>calculateBasicMetrics("Hello world. This is a test.")\<close> has
  \<open>charCount = 29\<close>, \<open>charNoSpacesCount = 24\<close>, \<open>wordCount = 6\<close>, \<open>sentenceCount = 2\<close>,
  \<open>paragraphCount = 1\<close> and \<open>avgWordLength = "4.00"\<close>. The sentence has 28 characters, 5 of
  them spaces, so the claim fails on the two character counts and on the average.
\<close>

theorem calculateBasicMetrics_example_not_29:
  "\<not> (charCount (calculateBasicMetrics ''Hello world. This is a test.'') = 29
      \<and> charNoSpacesCount (calculateBasicMetrics ''Hello world. This is a test.'') = 24
      \<and> wordCount (calculateBasicMetrics ''Hello world. This is a test.'') = 6
      \<and> sentenceCount (calculateBasicMetrics ''Hello world. This is a test.'') = 2
      \<and> paragraphCount (calculateBasicMetrics ''Hello world. This is a test.'') = 1
      \<and> avgWordLength (calculateBasicMetrics ''Hello world. This is a test.'') = Str ''4.00'')"
  by (simp add: calculateBasicMetrics_def Let_def)

text \<open>
  C2, amended: the metrics of \<^verbatim>\<open>"Hello world. This is a test."\<close> are \<open>charCount = 28\<close>,
  \<open>charNoSpacesCount = 23\<close>, \<open>wordCount = 6\<close>, \<open>sentenceCount = 2\<close>, \<open>paragraphCount = 1\<close>
  and \<open>avgWordLength = "3.83"\<close> (23 / 6 to two decimal places).
\<close>

theorem calculateBasicMetrics_example:
  "calculateBasicMetrics ''Hello world. This is a test.'' =
     \<lparr>charCount = 28, charNoSpacesCount = 23, wordCount = 6, sentenceCount = 2,
      paragraphCount = 1, avgWordLength = Str ''3.83''\<rparr>"
  by (simp add: calculateBasicMetrics_def normalizeText_def extractWords_def trim_def runAt_def
      replaceAll.simps(2) sentenceEndAt_def paragraphBreakAt_def toFixed2_def showNat.simps char_eval Let_def)


section \<open>Validation\<close>

text \<open>
  C3 claims that the empty text, like a text shorter than \<open>MIN_TEXT_LENGTH\<close>, is rejected
  with the too-short message that states the minimum; the repository's test of the empty
  text expects the same. The code answers the empty text from a guard of its own, with
  the message \<^verbatim>\<open>Please enter some text to analyze.\<close>, which neither says "too short" nor
  names the minimum.
\<close>

theorem validateText_empty_message:
  "validateText [] = \<lparr>isValid = False, message = ''Please enter some text to analyze.''\<rparr>
   \<and> \<not> containsStr ''too short'' (ValidationResult.message (validateText []))
   \<and> \<not> containsStr (showNat MIN_TEXT_LENGTH) (ValidationResult.message (validateText []))"
  by (simp add: validateText_def showNat_MIN_TEXT_LENGTH)

text \<open>
  On every non-empty text the code does what C3 says: a text shorter than
  \<open>MIN_TEXT_LENGTH = 10\<close> fails with the too-short message, which states the minimum; a
  text longer than \<open>MAX_TEXT_LENGTH = 100000\<close> fails with the too-long message, which states
  the maximum; every other text is valid, with the empty message.
\<close>

lemma validateText_nonempty:
  "(text \<noteq> [] \<and> length text < MIN_TEXT_LENGTH \<longrightarrow>
      validateText text =
        \<lparr>isValid = False, message = ''Text is too short. Minimum length is 10 characters.''\<rparr>
      \<and> containsStr ''too short'' (ValidationResult.message (validateText text))
      \<and> containsStr (showNat MIN_TEXT_LENGTH) (ValidationResult.message (validateText text)))
   \<and> (MAX_TEXT_LENGTH < length text \<longrightarrow>
      validateText text =
        \<lparr>isValid = False, message = ''Text is too long. Maximum length is 100000 characters.''\<rparr>
      \<and> containsStr ''too long'' (ValidationResult.message (validateText text))
      \<and> containsStr (showNat MAX_TEXT_LENGTH) (ValidationResult.message (validateText text)))
   \<and> (MIN_TEXT_LENGTH \<le> length text \<and> length text \<le> MAX_TEXT_LENGTH \<longrightarrow>
      validateText text = \<lparr>isValid = True, message = []\<rparr>)"
proof -
  have lt: "MIN_TEXT_LENGTH < MAX_TEXT_LENGTH"
    by (simp add: MIN_TEXT_LENGTH_def MAX_TEXT_LENGTH_def)
  have pos: "0 < MIN_TEXT_LENGTH"
    by (simp add: MIN_TEXT_LENGTH_def)
  have short: "containsStr ''10'' ''Text is too short. Minimum length is 10 characters.''"
    "containsStr ''too short'' ''Text is too short. Minimum length is 10 characters.''"
    by simp_all
  have long: "containsStr ''100000'' ''Text is too long. Maximum length is 100000 characters.''"
    "containsStr ''too long'' ''Text is too long. Maximum length is 100000 characters.''"
    by simp_all
  show ?thesis
    using lt pos short long
    by (auto simp: validateText_def showNat_MIN_TEXT_LENGTH showNat_MAX_TEXT_LENGTH)
qed

lemma validateText_examples:
  "validateText ''Too short'' =
        \<lparr>isValid = False, message = ''Text is too short. Minimum length is 10 characters.''\<rparr>
   \<and> validateText (replicate 100001 CHR ''a'') =
        \<lparr>isValid = False, message = ''Text is too long. Maximum length is 100000 characters.''\<rparr>
   \<and> validateText ''This is a valid text.'' = \<lparr>isValid = True, message = []\<rparr>"
  using validateText_nonempty [of "''Too short''"]
    validateText_nonempty [of "replicate 100001 CHR ''a''"]
    validateText_nonempty [of "''This is a valid text.''"]
  by (simp add: MIN_TEXT_LENGTH_def MAX_TEXT_LENGTH_def)


section \<open>Syllables\<close>

text \<open>
  C9: \<^verbatim>\<open>countSyllablesInWord\<close> returns a result for every word, and the result is at
  least 1; that holds for every string, so also for the non-empty alphabetic words, and
  for the words whose vowels are all stripped.
\<close>

theorem countSyllablesInWord_at_least_1:
  "1 \<le> countSyllablesInWord word"
  by (auto simp: countSyllablesInWord_def countNuclei_def jsMatch_def Let_def Suc_le_eq
      split: option.splits)

text \<open>
  A word that loses its only vowel with the ending: \<^verbatim>\<open>tsked\<close> becomes \<^verbatim>\<open>tsk\<close>, the match
  is \<^verbatim>\<open>null\<close>, and the count is 1.
\<close>

lemma countSyllablesInWord_tsked:
  "stripLeadingY (stripEnding ''tsked'') = ''tsk'' \<and> jsMatch vowelGroupAt ''tsk'' = None
   \<and> countSyllablesInWord ''tsked'' = 1"
  by (simp add: countSyllablesInWord_def countNuclei_def jsMatch_def char_eval)


section \<open>Readability formulas\<close>

text \<open>
  C6: each of the three formulas returns exactly 0 when the word count or the sentence
  count is 0, whatever the other arguments are; no division is reached.
\<close>

theorem readability_zero_counts:
  assumes "nWords = 0 \<or> nSentences = 0"
  shows "calculateFleschReadingEase nWords nSentences nSyllables = Some 0
       \<and> calculateFleschKincaidGrade nWords nSentences nSyllables = Some 0
       \<and> calculateColemanLiauIndex nChars nWords nSentences = Some 0"
  using assms
  by (auto simp: calculateFleschReadingEase_def calculateFleschKincaidGrade_def
      calculateColemanLiauIndex_def)

theorem readability_zero_counts_witness:
  "calculateFleschReadingEase 0 5 7 = Some 0
   \<and> calculateFleschKincaidGrade 0 5 7 = Some 0
   \<and> calculateColemanLiauIndex 3 0 5 = Some 0
   \<and> calculateFleschReadingEase 4 0 7 = Some 0
   \<and> calculateFleschKincaidGrade 4 0 7 = Some 0
   \<and> calculateColemanLiauIndex 3 4 0 = Some 0"
  using readability_zero_counts [of 0 5 7 3] readability_zero_counts [of 4 0 7 3]
  by simp


section \<open>The ending rule of the syllable counter\<close>

lemma endingAt_long: "3 \<le> length cs \<Longrightarrow> \<not> endingAt (c # cs)"
  by (cases cs rule: endingAt.cases) auto

lemma stripEndingSpec_snoc3:
  "stripEndingSpec p (ds @ [x, y, z]) =
     (if p x \<and> y = CHR ''e'' \<and> z = CHR ''s'' then ds
      else if y = CHR ''e'' \<and> z = CHR ''d'' then ds @ [x]
      else if p y \<and> z = CHR ''e'' then ds @ [x]
      else ds @ [x, y, z])"
  by (simp add: stripEndingSpec_def Let_def nth_append)

lemma first3: "3 \<le> length xs \<Longrightarrow> \<exists>z y x rs. xs = z # y # x # rs"
  by (auto simp: Suc_le_length_iff numeral_3_eq_3)

lemma last3:
  assumes "3 \<le> length cs"
  shows "\<exists>ds x y z. cs = ds @ [x, y, z]"
proof -
  from assms obtain z y x rs where "rev cs = z # y # x # rs"
    using first3 [of "rev cs"] by auto
  then have "rev (rev cs) = rev rs @ [x, y, z]" by simp
  then show ?thesis by auto
qed

lemma stripEndingSpec_Cons:
  assumes "3 \<le> length cs"
  shows "stripEndingSpec p (c # cs) = c # stripEndingSpec p cs"
proof -
  obtain ds x y z where cs: "cs = ds @ [x, y, z]"
    using last3 [OF assms] by blast
  have "stripEndingSpec p ((c # ds) @ [x, y, z]) = c # stripEndingSpec p (ds @ [x, y, z])"
    unfolding stripEndingSpec_snoc3 by simp
  then show ?thesis by (simp add: cs)
qed

lemma stripEnding_refines: "stripEnding w = stripEndingSpec consonantAmended w"
proof (induction w)
  case Nil
  show ?case by (simp add: stripEndingSpec_def)
next
  case (Cons c cs)
  consider "cs = []" | a where "cs = [a]" | a b where "cs = [a, b]" | "3 \<le> length cs"
    by (cases cs rule: endingAt.cases) auto
  then show ?case
  proof cases
    case 1
    then show ?thesis by (simp add: stripEndingSpec_def)
  next
    case 2
    then show ?thesis by (auto simp add: stripEndingSpec_def consonantAmended_def)
  next
    case 3
    then show ?thesis by (auto simp add: stripEndingSpec_def consonantAmended_def)
  next
    case 4
    then show ?thesis using Cons by (simp add: endingAt_long stripEndingSpec_Cons)
  qed
qed

text \<open>
  C4 claims that, for a lower-cased alphabetic word longer than 3, the counter strips a
  consonant followed by \<^verbatim>\<open>es\<close>, or \<^verbatim>\<open>ed\<close>, or a consonant followed by \<^verbatim>\<open>e\<close>, where a
  consonant is any letter other than a, e, i, o, u, y, so that l is one. The code's class
  is \<^verbatim>\<open>[^laeiouy]\<close>: it leaves \<^verbatim>\<open>table\<close> whole and counts 2 syllables, where the rule of the
  claim strips \<^verbatim>\<open>le\<close> and counts 1.
\<close>

theorem countSyllablesInWord_table_keeps_le:
  "toLowerCase ''table'' = ''table'' \<and> 3 < length ''table''
   \<and> stripEnding ''table'' \<noteq> stripEndingSpec consonantSpec ''table''
   \<and> countSyllablesInWord ''table'' \<noteq>
       countNuclei (stripLeadingY (stripEndingSpec consonantSpec (toLowerCase ''table'')))"
  by (simp add: countSyllablesInWord_def countNuclei_def jsMatch_def stripEndingSpec_def
      consonantSpec_def char_eval)

text \<open>
  C4, amended: for every word longer than 3, \<^verbatim>\<open>countSyllablesInWord\<close> lower-cases it and
  strips a trailing consonant followed by \<^verbatim>\<open>es\<close>, or \<^verbatim>\<open>ed\<close>, or a consonant followed by
  a single \<^verbatim>\<open>e\<close>, before it strips a leading y and counts the vowel groups, where a
  consonant is any character other than l, a, e, i, o, u, y (so l is not one).
\<close>

theorem countSyllablesInWord_strips_ending:
  assumes "3 < length word"
  shows "countSyllablesInWord word =
         countNuclei (stripLeadingY (stripEndingSpec consonantAmended (toLowerCase word)))"
  using assms
  by (simp add: countSyllablesInWord_def Let_def toLowerCase_def stripEnding_refines)

theorem countSyllablesInWord_strips_ending_witness:
  "3 < length ''makes''
   \<and> stripEndingSpec consonantAmended (toLowerCase ''makes'') = ''ma''
   \<and> countSyllablesInWord ''makes'' = 1"
  using countSyllablesInWord_strips_ending [of "''makes''"]
  by (simp add: countNuclei_def jsMatch_def stripEndingSpec_def consonantAmended_def char_eval)


section \<open>Collapsing runs, trimming, lower-casing\<close>

lemma runAt_Cons:
  "runAt p (c # cs) = (if p c then Some (Suc (length (takeWhile p cs))) else None)"
  by (simp add: runAt_def)

lemma replaceAll_runAt_Cons:
  "replaceAll (runAt p) rep (c # cs) =
     (if p c then rep @ replaceAll (runAt p) rep (dropWhile p cs)
      else c # replaceAll (runAt p) rep cs)"
  by (simp add: replaceAll.simps(2) runAt_Cons dropWhile_eq_drop)

lemma replaceAll_runAt_induct [consumes 0, case_names Nil Run Other]:
  assumes "P []"
    and "\<And>c cs. p c \<Longrightarrow> P (dropWhile p cs) \<Longrightarrow> P (c # cs)"
    and "\<And>c cs. \<not> p c \<Longrightarrow> P cs \<Longrightarrow> P (c # cs)"
  shows "P s"
proof (induction s rule: length_induct)
  case (1 xs)
  show ?case
  proof (cases xs)
    case Nil
    then show ?thesis using assms(1) by simp
  next
    case (Cons c cs)
    have "length (dropWhile p cs) < length xs"
      using Cons length_dropWhile_le [of p cs] by simp
    then have a: "P (dropWhile p cs)" using 1 by blast
    have b: "P cs" using 1 Cons by simp
    show ?thesis using a b assms(2,3) Cons by (cases "p c") auto
  qed
qed

lemma hd_replaceAll_runAt:
  "s \<noteq> [] \<Longrightarrow> hd (replaceAll (runAt p) [r] s) = (if p (hd s) then r else hd s)"
  by (cases s) (simp_all add: replaceAll_runAt_Cons)

lemma replaceAll_runAt_Nil_iff: "replaceAll (runAt p) [r] s = [] \<longleftrightarrow> s = []"
  by (cases s) (simp_all add: replaceAll_runAt_Cons)

lemma runFree_suffix: "runFree p r (xs @ ys) \<Longrightarrow> runFree p r ys"
  by (induction xs) auto

lemma runFree_prefix: "runFree p r (xs @ ys) \<Longrightarrow> runFree p r xs"
  by (induction xs) (auto simp: hd_append split: if_splits)

lemma runFree_dropWhile: "runFree p r s \<Longrightarrow> runFree p r (dropWhile q s)"
  using runFree_suffix [of p r "takeWhile q s" "dropWhile q s"] by simp

lemma runFree_replaceAll:
  "p r \<Longrightarrow> runFree p r (replaceAll (runAt p) [r] s)"
proof (induction s rule: replaceAll_runAt_induct [where p = p])
  case Nil
  show ?case by simp
next
  case (Run c cs)
  let ?d = "dropWhile p cs"
  have "?d = [] \<or> \<not> p (hd (replaceAll (runAt p) [r] ?d))"
  proof (cases "?d = []")
    case False
    then have "\<not> p (hd ?d)" using hd_dropWhile by blast
    then show ?thesis using False hd_replaceAll_runAt [of ?d p r] by simp
  qed simp
  then have "replaceAll (runAt p) [r] ?d = [] \<or> \<not> p (hd (replaceAll (runAt p) [r] ?d))"
    by (auto simp: replaceAll_runAt_Nil_iff)
  then show ?case using Run
    by (simp add: replaceAll_runAt_Cons)
next
  case (Other c cs)
  then show ?case by (simp add: replaceAll_runAt_Cons)
qed

lemma runFree_fixed: "runFree p r s \<Longrightarrow> replaceAll (runAt p) [r] s = s"
proof (induction s)
  case Nil
  show ?case by simp
next
  case (Cons c cs)
  then have ih: "replaceAll (runAt p) [r] cs = cs" by simp
  show ?case
  proof (cases "p c")
    case True
    then have "c = r" "cs = [] \<or> \<not> p (hd cs)" using Cons.prems by auto
    then have "dropWhile p cs = cs" by (simp add: dropWhile_eq_self_iff)
    then show ?thesis using True ih \<open>c = r\<close> by (simp add: replaceAll_runAt_Cons)
  next
    case False
    then show ?thesis using ih by (simp add: replaceAll_runAt_Cons)
  qed
qed

lemma runFree_other_replaceAll:
  assumes "\<And>c. q c \<Longrightarrow> \<not> p c" and "\<not> p r'"
  shows "runFree p r s \<Longrightarrow> runFree p r (replaceAll (runAt q) [r'] s)"
proof (induction s rule: replaceAll_runAt_induct [where p = q])
  case Nil
  show ?case by simp
next
  case (Run c cs)
  then show ?case using assms
    by (auto simp: replaceAll_runAt_Cons runFree_dropWhile)
next
  case (Other c cs)
  then show ?case using assms
    by (cases cs) (auto simp: replaceAll_runAt_Cons hd_replaceAll_runAt replaceAll_runAt_Nil_iff)
qed

lemma trim_middle: "\<exists>a b. s = a @ trim s @ b"
proof -
  let ?u = "dropWhile isWs s"
  have "rev (rev ?u) = rev (takeWhile isWs (rev ?u) @ dropWhile isWs (rev ?u))"
    by (simp only: takeWhile_dropWhile_id)
  then have "?u = trim s @ rev (takeWhile isWs (rev ?u))"
    by (simp only: rev_append rev_rev_ident trim_def)
  then have "takeWhile isWs s @ ?u = takeWhile isWs s @ trim s @ rev (takeWhile isWs (rev ?u))"
    by simp
  then have "s = takeWhile isWs s @ trim s @ rev (takeWhile isWs (rev ?u))"
    by (simp only: takeWhile_dropWhile_id)
  then show ?thesis by blast
qed

lemma runFree_trim: "runFree p r s \<Longrightarrow> runFree p r (trim s)"
  using trim_middle [of s] runFree_suffix runFree_prefix by metis

lemma trim_fixed_iff: "trim s = s \<longleftrightarrow> s = [] \<or> (\<not> isWs (hd s) \<and> \<not> isWs (last s))"
proof (cases "s = []")
  case True
  then show ?thesis by (simp add: trim_def)
next
  case False
  show ?thesis
  proof
    assume t: "trim s = s"
    have "length (dropWhile isWs s) = length s"
      using t length_dropWhile_le [of isWs "rev (dropWhile isWs s)"] length_dropWhile_le [of isWs s]
      by (simp add: trim_def) (metis length_rev le_antisym)
    then have d: "dropWhile isWs s = s"
      by (metis append_eq_append_conv append_self_conv2 length_0_conv length_append takeWhile_dropWhile_id add_cancel_right_left)
    then have "rev (dropWhile isWs (rev s)) = s" using t by (simp add: trim_def)
    then have "dropWhile isWs (rev s) = rev s" by (metis rev_rev_ident)
    then show "s = [] \<or> (\<not> isWs (hd s) \<and> \<not> isWs (last s))"
      using d False by (simp add: dropWhile_eq_self_iff hd_rev)
  next
    assume "s = [] \<or> (\<not> isWs (hd s) \<and> \<not> isWs (last s))"
    then have "dropWhile isWs s = s" "dropWhile isWs (rev s) = rev s"
      using False by (simp_all add: dropWhile_eq_self_iff hd_rev)
    then show "trim s = s" by (simp add: trim_def)
  qed
qed

lemma trim_trim: "trim (trim s) = trim s"
proof -
  let ?u = "dropWhile isWs s"
  let ?v = "dropWhile isWs (rev ?u)"
  have v: "?v = [] \<or> \<not> isWs (hd ?v)" using hd_dropWhile by blast
  have tr: "trim s = rev ?v" by (simp add: trim_def)
  show ?thesis
  proof (cases "?v = []")
    case True
    then have e: "trim s = []" using tr by simp
    have "trim [] = []" by (simp add: trim_def)
    then show ?thesis using e by simp
  next
    case False
    then have l: "\<not> isWs (last (trim s))" by (metis v tr last_rev)
    have u: "?u \<noteq> []" using False by (metis dropWhile.simps(1) rev.simps(1))
    then have hu: "\<not> isWs (hd ?u)" using hd_dropWhile by blast
    have "?u = trim s @ rev (takeWhile isWs (rev ?u))"
      by (metis rev_append rev_rev_ident takeWhile_dropWhile_id tr)
    moreover have "trim s \<noteq> []" using False tr by simp
    ultimately have "hd ?u = hd (trim s)" by (metis hd_append2)
    then show ?thesis using hu l \<open>trim s \<noteq> []\<close> by (simp add: trim_fixed_iff)
  qed
qed


lemma set_replaceAll: "set (replaceAll m rep s) \<subseteq> set s \<union> set rep"
proof (induction m rep s rule: replaceAll.induct)
  case (1 m rep)
  show ?case by simp
next
  case (2 m rep c cs)
  show ?case
  proof (cases "m (c # cs)")
    case None
    then show ?thesis using 2(1) by (auto simp: replaceAll.simps(2))
  next
    case (Some n)
    have "set (drop (n - 1) cs) \<subseteq> set cs" by (rule set_drop_subset)
    then show ?thesis using Some 2(2) [OF Some] by (auto simp: replaceAll.simps(2))
  qed
qed

lemma set_trim: "set (trim s) \<subseteq> set s"
  using trim_middle [of s] by (metis Un_upper1 Un_upper2 set_append subset_trans)

lemma toLowerChar_idem: "toLowerChar (toLowerChar c) = toLowerChar c"
  by (simp add: toLowerChar_def Let_def)

lemma toLowerCase_fixed: "(\<And>c. c \<in> set s \<Longrightarrow> toLowerChar c = c) \<Longrightarrow> toLowerCase s = s"
  by (simp add: toLowerCase_def map_idI)

lemma toLowerChar_space: "toLowerChar CHR '' '' = CHR '' ''"
  by (simp add: toLowerChar_def)

lemma toLowerChar_dot: "toLowerChar CHR ''.'' = CHR ''.''"
  by (simp add: toLowerChar_def)

lemma normalizeText_chars:
  assumes "c \<in> set (normalizeText t)"
  shows "toLowerChar c = c"
proof -
  have "c \<in> set (toLowerCase t) \<union> {CHR '' '', CHR ''.''}"
    using assms set_trim set_replaceAll [of "runAt isPunct" "''.''"]
      set_replaceAll [of "runAt isWs" "'' ''" "toLowerCase t"]
    unfolding normalizeText_def by fastforce
  then show ?thesis
    by (auto simp: toLowerCase_def toLowerChar_idem toLowerChar_space toLowerChar_dot)
qed

lemma isPunct_not_isWs: "isPunct c \<Longrightarrow> \<not> isWs c"
  by (auto simp: isPunct_def isWs_def)


section \<open>Normalisation reaches a fixed point\<close>

text \<open>
  C10: \<^verbatim>\<open>normalizeText\<close> is idempotent. After one pass every character is its own lower
  case, the white space is single spaces, the punctuation marks are single full stops and
  neither end is white space, so the four steps of a second pass change nothing.
\<close>

theorem normalizeText_idempotent: "normalizeText (normalizeText t) = normalizeText t"
proof -
  let ?W = "replaceAll (runAt isWs) '' ''" and ?P = "replaceAll (runAt isPunct) ''.''"
  let ?n = "normalizeText t"
  have n: "?n = trim (?P (?W (toLowerCase t)))" by (simp add: normalizeText_def)
  have l: "toLowerCase ?n = ?n" using normalizeText_chars by (rule toLowerCase_fixed)
  have "runFree isWs CHR '' '' (?W (toLowerCase t))"
    by (rule runFree_replaceAll) (simp add: isWs_def)
  then have "runFree isWs CHR '' '' (?P (?W (toLowerCase t)))"
    by (rule runFree_other_replaceAll [rotated 2]) (auto simp: isPunct_def isWs_def)
  then have "runFree isWs CHR '' '' ?n" unfolding n by (rule runFree_trim)
  then have w: "?W ?n = ?n" by (rule runFree_fixed)
  have "runFree isPunct CHR ''.'' (?P (?W (toLowerCase t)))"
    by (rule runFree_replaceAll) (simp add: isPunct_def)
  then have "runFree isPunct CHR ''.'' ?n" unfolding n by (rule runFree_trim)
  then have p: "?P ?n = ?n" by (rule runFree_fixed)
  have t: "trim ?n = ?n" unfolding n by (rule trim_trim)
  have "normalizeText ?n = trim (?P (?W (toLowerCase ?n)))" by (simp add: normalizeText_def)
  then show ?thesis by (simp only: l w p t)
qed


section \<open>Texts a replacement leaves unchanged\<close>

lemma noMatch_fixed: "noMatch m s \<Longrightarrow> replaceAll m rep s = s"
  by (induction s) (simp_all add: replaceAll.simps(2))

lemma noMatch_suffix: "noMatch m (xs @ ys) \<Longrightarrow> noMatch m ys"
  by (induction xs) auto

lemma noMatch_drop: "noMatch m s \<Longrightarrow> noMatch m (drop n s)"
  using noMatch_suffix [of m "take n s" "drop n s"] by simp

subsection \<open>Texts without tags\<close>

lemma htmlTagAt_Cons:
  "htmlTagAt (c # cs) = None \<longleftrightarrow> \<not> (c = CHR ''<'' \<and> CHR ''>'' \<in> set cs)"
  by (simp add: htmlTagAt_def)

lemma noTag_prefix: "noMatch htmlTagAt (xs @ ys) \<Longrightarrow> noMatch htmlTagAt xs"
  by (induction xs) (auto simp: htmlTagAt_Cons)

lemma noTag_append:
  "CHR ''<'' \<notin> set xs \<Longrightarrow> noMatch htmlTagAt ys \<Longrightarrow> noMatch htmlTagAt (xs @ ys)"
  by (induction xs) (auto simp: htmlTagAt_Cons)

lemma replaceAll_None:
  "m (c # cs) = None \<Longrightarrow> replaceAll m rep (c # cs) = c # replaceAll m rep cs"
  by (simp add: replaceAll.simps(2))

lemma replaceAll_Some:
  "m (c # cs) = Some n \<Longrightarrow> replaceAll m rep (c # cs) = rep @ replaceAll m rep (drop (n - 1) cs)"
  by (simp add: replaceAll.simps(2))

lemma gt_replaceAll:
  "CHR ''>'' \<notin> set rep \<Longrightarrow> CHR ''>'' \<in> set (replaceAll m rep cs) \<Longrightarrow> CHR ''>'' \<in> set cs"
  using set_replaceAll [of m rep cs] by auto

lemma replaceAll_induct [case_names Nil NoMatch Match]:
  assumes "P []"
    and "\<And>c cs. m (c # cs) = None \<Longrightarrow> P cs \<Longrightarrow> P (c # cs)"
    and "\<And>c cs n. m (c # cs) = Some n \<Longrightarrow> P (drop (n - 1) cs) \<Longrightarrow> P (c # cs)"
  shows "P s"
proof (induction s rule: length_induct)
  case (1 xs)
  show ?case
  proof (cases xs)
    case Nil
    then show ?thesis using assms(1) by simp
  next
    case (Cons c cs)
    show ?thesis
    proof (cases "m (c # cs)")
      case None
      have "P cs" using 1 Cons by simp
      then show ?thesis using assms(2) None Cons by simp
    next
      case (Some n)
      have "length (drop (n - 1) cs) < length xs" using Cons by simp
      then have "P (drop (n - 1) cs)" using 1 by blast
      then show ?thesis using assms(3) Some Cons by simp
    qed
  qed
qed

lemma noTag_replaceAll:
  assumes lt: "CHR ''<'' \<notin> set rep" and gt: "CHR ''>'' \<notin> set rep"
  shows "noMatch htmlTagAt s \<Longrightarrow> noMatch htmlTagAt (replaceAll m rep s)"
proof (induction s rule: replaceAll_induct [where m = m])
  case Nil
  show ?case by simp
next
  case (NoMatch c cs)
  then have "noMatch htmlTagAt (replaceAll m rep cs)" by simp
  moreover have "htmlTagAt (c # replaceAll m rep cs) = None"
    using NoMatch.prems gt_replaceAll [OF gt, of m cs] by (auto simp: htmlTagAt_Cons)
  ultimately show ?case using NoMatch.hyps by (simp add: replaceAll_None)
next
  case (Match c cs n)
  have "noMatch htmlTagAt (drop (n - 1) cs)" using Match.prems by (simp add: noMatch_drop)
  then have "noMatch htmlTagAt (replaceAll m rep (drop (n - 1) cs))" using Match.IH by simp
  then show ?case using Match.hyps lt by (simp add: replaceAll_Some noTag_append)
qed

lemma noTag_removeTags: "noMatch htmlTagAt (replaceAll htmlTagAt [] s)"
proof (induction s rule: replaceAll_induct [where m = htmlTagAt])
  case Nil
  show ?case by simp
next
  case (NoMatch c cs)
  have "htmlTagAt (c # replaceAll htmlTagAt [] cs) = None"
    using NoMatch(1) gt_replaceAll [of "[]" htmlTagAt cs] by (auto simp: htmlTagAt_Cons)
  then show ?case using NoMatch by (simp add: replaceAll_None)
next
  case (Match c cs n)
  then show ?case by (simp add: replaceAll_Some)
qed

lemma noTag_trim: "noMatch htmlTagAt s \<Longrightarrow> noMatch htmlTagAt (trim s)"
  using trim_middle [of s] noMatch_suffix noTag_prefix by metis


subsection \<open>Texts without URLs\<close>

lemma scheme_not_ws: "scheme p \<Longrightarrow> c \<in> set p \<Longrightarrow> \<not> isWs c"
  by (auto simp: scheme_def isWs_def)

lemma take_eq_append: "take (length p) s = p \<longleftrightarrow> (\<exists>r. s = p @ r)"
  by (metis append_eq_conv_conj)

lemma urlAt_iff:
  "urlAt s \<noteq> None \<longleftrightarrow> (\<exists>p x r. scheme p \<and> s = p @ x # r \<and> \<not> isWs x)"
proof
  assume a: "urlAt s \<noteq> None"
  define k :: nat where "k = (if take 8 s = ''https://'' then 8 else 7)"
  have sch: "take 8 s = ''https://'' \<or> take 7 s = ''http://''"
    and run: "takeWhile (\<lambda>c. \<not> isWs c) (drop k s) \<noteq> []"
    using a by (auto simp: urlAt_def Let_def k_def split: if_splits)
  have p: "scheme (take k s)"
    using sch by (auto simp: k_def scheme_def)
  from run have "drop k s \<noteq> []" "\<not> isWs (hd (drop k s))"
    by (auto simp: takeWhile_eq_Nil_iff)
  then obtain x r where "drop k s = x # r" "\<not> isWs x"
    by (cases "drop k s") auto
  then have "s = take k s @ x # r" by (metis append_take_drop_id)
  then show "\<exists>p x r. scheme p \<and> s = p @ x # r \<and> \<not> isWs x"
    using p \<open>\<not> isWs x\<close> by blast
next
  assume "\<exists>p x r. scheme p \<and> s = p @ x # r \<and> \<not> isWs x"
  then obtain p x r where p: "scheme p" and s: "s = p @ x # r" and x: "\<not> isWs x" by blast
  from p show "urlAt s \<noteq> None"
    unfolding scheme_def
  proof
    assume "p = ''https://''"
    then show ?thesis using s x by (simp add: urlAt_def)
  next
    assume "p = ''http://''"
    then show ?thesis using s x by (simp add: urlAt_def)
  qed
qed

lemma urlAt_ws: "isWs c \<Longrightarrow> urlAt (c # cs) = None"
proof (rule ccontr)
  assume c: "isWs c" and "urlAt (c # cs) \<noteq> None"
  then obtain p x r where p: "scheme p" and s: "c # cs = p @ x # r"
    using urlAt_iff by blast
  from p s have "c \<in> set p" by (auto simp: scheme_def)
  then show False using c p scheme_not_ws by blast
qed

lemma urlAt_cut:
  assumes m: "urlAt (a @ r) \<noteq> None" and r: "r = [] \<or> isWs (hd r)"
  shows "urlAt (a @ u) \<noteq> None"
proof -
  obtain p x t where p: "scheme p" and s: "a @ r = p @ x # t" and x: "\<not> isWs x"
    using m urlAt_iff by blast
  have nws: "\<And>c. c \<in> set (p @ [x]) \<Longrightarrow> \<not> isWs c"
    using p x scheme_not_ws by auto
  from s have "a @ r = (p @ [x]) @ t" by simp
  then obtain us where us: "(a = (p @ [x]) @ us \<and> us @ r = t) \<or> (a @ us = p @ [x] \<and> r = us @ t)"
    by (auto simp only: append_eq_append_conv2)
  have "\<exists>vs. a = p @ x # vs"
  proof (cases "a = (p @ [x]) @ us \<and> us @ r = t")
    case True
    then show ?thesis by simp
  next
    case False
    then have b: "a @ us = p @ [x]" "r = us @ t" using us by auto
    show ?thesis
    proof (cases us)
      case Nil
      then show ?thesis using b by simp
    next
      case (Cons w ws)
      then have "hd r = w" "r \<noteq> []" using b by simp_all
      then have "isWs w" using r by auto
      moreover have "w \<in> set (p @ [x])" using b(1) Cons by (metis in_set_conv_decomp)
      ultimately show ?thesis using nws by blast
    qed
  qed
  then obtain vs where "a @ u = p @ x # (vs @ u)" by auto
  then show ?thesis using p x urlAt_iff by blast
qed

lemma urlAt_rest:
  assumes "urlAt s = Some n"
  shows "drop n s = [] \<or> isWs (hd (drop n s))"
proof -
  define k :: nat where "k = (if take 8 s = ''https://'' then 8 else 7)"
  have n: "n = k + length (takeWhile (\<lambda>c. \<not> isWs c) (drop k s))"
    using assms by (auto simp: urlAt_def Let_def k_def split: if_splits)
  have "drop n s = dropWhile (\<lambda>c. \<not> isWs c) (drop k s)"
    by (simp add: n dropWhile_eq_drop add.commute)
  then show ?thesis using hd_dropWhile [of "\<lambda>c. \<not> isWs c" "drop k s"] by auto
qed

lemma urlAt_pos: "urlAt s = Some n \<Longrightarrow> 0 < n"
  by (auto simp: urlAt_def Let_def split: if_splits)


lemma hd_removeUrls_ws:
  "s = [] \<or> isWs (hd s) \<Longrightarrow> replaceAll urlAt [] s = [] \<or> isWs (hd (replaceAll urlAt [] s))"
  by (cases s) (auto simp: replaceAll_None urlAt_ws)

lemma removeUrls_cut:
  "\<exists>a u r. s = a @ u \<and> replaceAll urlAt [] s = a @ r \<and> (r = [] \<or> isWs (hd r))"
proof (induction s rule: replaceAll_induct [where m = urlAt])
  case Nil
  show ?case by simp
next
  case (NoMatch c cs)
  then obtain a u r where "cs = a @ u" "replaceAll urlAt [] cs = a @ r" "r = [] \<or> isWs (hd r)"
    by blast
  then have "c # cs = (c # a) @ u \<and> replaceAll urlAt [] (c # cs) = (c # a) @ r
      \<and> (r = [] \<or> isWs (hd r))"
    using NoMatch.hyps by (simp add: replaceAll_None)
  then show ?case by blast
next
  case (Match c cs n)
  have "drop (n - 1) cs = drop n (c # cs)"
    using urlAt_pos [OF Match.hyps] by (cases n) simp_all
  then have "drop (n - 1) cs = [] \<or> isWs (hd (drop (n - 1) cs))"
    using urlAt_rest [OF Match.hyps] by simp
  then have "replaceAll urlAt [] (drop (n - 1) cs) = []
      \<or> isWs (hd (replaceAll urlAt [] (drop (n - 1) cs)))"
    by (rule hd_removeUrls_ws)
  then have "c # cs = [] @ (c # cs) \<and> replaceAll urlAt [] (c # cs) = [] @ replaceAll urlAt [] (drop (n - 1) cs)
      \<and> (replaceAll urlAt [] (drop (n - 1) cs) = [] \<or> isWs (hd (replaceAll urlAt [] (drop (n - 1) cs))))"
    using Match.hyps by (simp add: replaceAll_Some)
  then show ?case by blast
qed

lemma noUrl_removeUrls: "noMatch urlAt (replaceAll urlAt [] s)"
proof (induction s rule: replaceAll_induct [where m = urlAt])
  case Nil
  show ?case by simp
next
  case (NoMatch c cs)
  obtain a u r where cut: "cs = a @ u" "replaceAll urlAt [] cs = a @ r" "r = [] \<or> isWs (hd r)"
    using removeUrls_cut by blast
  have "urlAt (c # replaceAll urlAt [] cs) = None"
  proof (rule ccontr)
    assume "urlAt (c # replaceAll urlAt [] cs) \<noteq> None"
    then have "urlAt ((c # a) @ r) \<noteq> None" using cut by simp
    then have "urlAt ((c # a) @ u) \<noteq> None" using cut(3) by (rule urlAt_cut)
    then show False using NoMatch.hyps cut by simp
  qed
  then show ?case using NoMatch by (simp add: replaceAll_None)
next
  case (Match c cs n)
  then show ?case by (simp add: replaceAll_Some)
qed

lemma collapse_cut:
  "\<exists>a u r. s = a @ u \<and> replaceAll (runAt isWs) '' '' s = a @ r \<and> (r = [] \<or> isWs (hd r))"
proof (induction s rule: replaceAll_runAt_induct [where p = isWs])
  case Nil
  show ?case by simp
next
  case (Run c cs)
  have "c # cs = [] @ (c # cs) \<and> replaceAll (runAt isWs) '' '' (c # cs) =
      [] @ (CHR '' '' # replaceAll (runAt isWs) '' '' (dropWhile isWs cs))
      \<and> isWs (hd (CHR '' '' # replaceAll (runAt isWs) '' '' (dropWhile isWs cs)))"
    using Run(1) by (simp add: replaceAll_runAt_Cons isWs_def)
  then show ?case by blast
next
  case (Other c cs)
  then obtain a u r where "cs = a @ u" "replaceAll (runAt isWs) '' '' cs = a @ r"
    "r = [] \<or> isWs (hd r)" by blast
  then have "c # cs = (c # a) @ u \<and> replaceAll (runAt isWs) '' '' (c # cs) = (c # a) @ r
      \<and> (r = [] \<or> isWs (hd r))"
    using Other(1) by (simp add: replaceAll_runAt_Cons)
  then show ?case by blast
qed

lemma noUrl_collapse:
  "noMatch urlAt s \<Longrightarrow> noMatch urlAt (replaceAll (runAt isWs) '' '' s)"
proof (induction s rule: replaceAll_runAt_induct [where p = isWs])
  case Nil
  show ?case by simp
next
  case (Run c cs)
  have "noMatch urlAt (dropWhile isWs cs)"
    using Run.prems noMatch_suffix [of urlAt "takeWhile isWs cs" "dropWhile isWs cs"] by simp
  then have "noMatch urlAt (replaceAll (runAt isWs) '' '' (dropWhile isWs cs))"
    using Run by simp
  moreover have "isWs CHR '' ''" by (simp add: isWs_def)
  ultimately show ?case using Run(1) by (simp add: replaceAll_runAt_Cons urlAt_ws)
next
  case (Other c cs)
  obtain a u r where cut: "cs = a @ u" "replaceAll (runAt isWs) '' '' cs = a @ r"
    "r = [] \<or> isWs (hd r)"
    using collapse_cut by blast
  have "urlAt (c # replaceAll (runAt isWs) '' '' cs) = None"
  proof (rule ccontr)
    assume "urlAt (c # replaceAll (runAt isWs) '' '' cs) \<noteq> None"
    then have "urlAt ((c # a) @ r) \<noteq> None" using cut by simp
    then have "urlAt ((c # a) @ u) \<noteq> None" using cut(3) by (rule urlAt_cut)
    then show False using Other.prems cut by simp
  qed
  then show ?case using Other by (simp add: replaceAll_runAt_Cons)
qed

lemma noUrl_prefix:
  "noMatch urlAt (t @ b) \<Longrightarrow> b = [] \<or> isWs (hd b) \<Longrightarrow> noMatch urlAt t"
proof (induction t)
  case Nil
  show ?case by simp
next
  case (Cons c t)
  have "urlAt (c # t) = None"
  proof (rule ccontr)
    assume "urlAt (c # t) \<noteq> None"
    then have "urlAt ((c # t) @ []) \<noteq> None" by simp
    then have "urlAt ((c # t) @ b) \<noteq> None" by (rule urlAt_cut) simp
    then show False using Cons.prems by simp
  qed
  then show ?case using Cons by simp
qed

lemma trim_middle_ws:
  "\<exists>a b. s = a @ trim s @ b \<and> (b = [] \<or> isWs (hd b))"
proof -
  let ?u = "dropWhile isWs s"
  let ?b = "rev (takeWhile isWs (rev ?u))"
  have "rev (rev ?u) = rev (takeWhile isWs (rev ?u) @ dropWhile isWs (rev ?u))"
    by (simp only: takeWhile_dropWhile_id)
  then have "?u = trim s @ ?b"
    by (simp only: rev_append rev_rev_ident trim_def)
  then have "takeWhile isWs s @ ?u = takeWhile isWs s @ trim s @ ?b"
    by simp
  then have "s = takeWhile isWs s @ trim s @ ?b"
    by (simp only: takeWhile_dropWhile_id)
  moreover have "?b = [] \<or> isWs (hd ?b)"
  proof (cases "?b = []")
    case False
    then have "hd ?b \<in> set (takeWhile isWs (rev ?u))" by (metis hd_in_set set_rev)
    then show ?thesis using set_takeWhileD by fast
  qed simp
  ultimately show ?thesis by blast
qed

lemma noUrl_trim: "noMatch urlAt s \<Longrightarrow> noMatch urlAt (trim s)"
proof -
  assume a: "noMatch urlAt s"
  obtain x b where s: "s = x @ trim s @ b" and b: "b = [] \<or> isWs (hd b)"
    using trim_middle_ws by blast
  have "noMatch urlAt (trim s @ b)" using a s noMatch_suffix by metis
  then show ?thesis using b by (rule noUrl_prefix)
qed


section \<open>Sanitising twice\<close>

text \<open>
  C7: \<^verbatim>\<open>sanitizeText\<close> is idempotent. Its result has no tag (no \<^verbatim>\<open><\<close> with a \<^verbatim>\<open>>\<close>
  after it is left, and the later steps add neither), no URL (a removed URL ends at white
  space or at the end of the text, so removing it joins no new one), only single spaces as
  white space, and no white space at either end; a second pass changes nothing.
\<close>

theorem sanitizeText_idempotent: "sanitizeText (sanitizeText x) = sanitizeText x"
proof (cases "sanitizeText x = []")
  case True
  then show ?thesis by (simp add: sanitizeText_def)
next
  case False
  let ?H = "replaceAll htmlTagAt []" and ?U = "replaceAll urlAt []"
  let ?W = "replaceAll (runAt isWs) '' ''"
  let ?s = "sanitizeText x"
  have s: "?s = trim (?W (?U (?H x)))" using False by (auto simp: sanitizeText_def)
  have "noMatch htmlTagAt (?H x)" by (rule noTag_removeTags)
  then have "noMatch htmlTagAt (?U (?H x))" by (simp add: noTag_replaceAll)
  then have "noMatch htmlTagAt (?W (?U (?H x)))" by (simp add: noTag_replaceAll)
  then have "noMatch htmlTagAt ?s" unfolding s by (rule noTag_trim)
  then have h: "?H ?s = ?s" by (rule noMatch_fixed)
  have "noMatch urlAt (?U (?H x))" by (rule noUrl_removeUrls)
  then have "noMatch urlAt (?W (?U (?H x)))" by (rule noUrl_collapse)
  then have "noMatch urlAt ?s" unfolding s by (rule noUrl_trim)
  then have u: "?U ?s = ?s" by (rule noMatch_fixed)
  have "runFree isWs CHR '' '' (?W (?U (?H x)))"
    by (rule runFree_replaceAll) (simp add: isWs_def)
  then have "runFree isWs CHR '' '' ?s" unfolding s by (rule runFree_trim)
  then have w: "?W ?s = ?s" by (rule runFree_fixed)
  have t: "trim ?s = ?s" unfolding s by (rule trim_trim)
  have "sanitizeText ?s = trim (?W (?U (?H ?s)))" using False by (simp add: sanitizeText_def)
  then show ?thesis by (simp only: h u w t)
qed


section \<open>The words of the frequency table\<close>

lemma extractWords_eq: "extractWords s = wordMatches s"
  by (simp add: extractWords_def Let_def)

lemma wordMatches_chars: "w \<in> set (wordMatches s) \<Longrightarrow> set w \<subseteq> set s"
proof (induction s arbitrary: w rule: wordMatches.induct)
  case 1
  then show ?case by simp
next
  case (2 c cs)
  show ?case
  proof (cases "isWordChar c")
    case True
    then have "w = c # takeWhile isWordChar cs \<or> w \<in> set (wordMatches (dropWhile isWordChar cs))"
      using "2.prems" by simp
    then show ?thesis
    proof
      assume "w = c # takeWhile isWordChar cs"
      then show ?thesis using set_takeWhileD [of _ isWordChar cs] by auto
    next
      assume "w \<in> set (wordMatches (dropWhile isWordChar cs))"
      then have "set w \<subseteq> set (dropWhile isWordChar cs)" using "2.IH"(1) True by simp
      then show ?thesis using set_dropWhileD [of _ isWordChar cs] by auto
    qed
  next
    case False
    then show ?thesis using 2 by auto
  qed
qed

lemma set_insertBy: "set (insertBy cmp x ys) = insert x (set ys)"
  by (induction ys) auto

lemma set_jsSort: "set (jsSort cmp xs) = set xs"
  by (induction xs) (simp_all add: jsSort_def set_insertBy)

lemma set_objectEntries: "set (objectEntries obj) = set obj"
  by (auto simp: objectEntries_def)

lemma keys_countWord:
  "fst ` set (countWord m obj w) \<subseteq> fst ` set obj \<union> {w' \<in> {w}. m < length w'}"
  by (auto simp: countWord_def setProperty_def dom_update)

lemma keys_foldl_countWord:
  "fst ` set (foldl (countWord m) obj ws) \<subseteq> fst ` set obj \<union> {w \<in> set ws. m < length w}"
proof (induction ws arbitrary: obj)
  case Nil
  show ?case by simp
next
  case (Cons w ws)
  show ?case using Cons [of "countWord m obj w"] keys_countWord [of m obj w] by auto
qed

lemma set_sliceFromStart: "set (sliceFromStart xs e) \<subseteq> set xs"
  by (simp add: sliceFromStart_def Let_def set_take_subset)

lemma length_sliceFromStart: "0 \<le> e \<Longrightarrow> int (length (sliceFromStart xs e)) \<le> e"
  by (simp add: sliceFromStart_def Let_def)

lemma analyzeWordFrequency_words:
  assumes "(w, c) \<in> set (analyzeWordFrequency text minLength maxWords)"
  shows "w \<in> set (extractWords (normalizeText text)) \<and> minLength < length w"
proof -
  let ?ws = "extractWords (normalizeText text)"
  have "(w, c) \<in> set (foldl (countWord minLength) [] ?ws)"
    using assms set_sliceFromStart
    by (fastforce simp: analyzeWordFrequency_def Let_def set_jsSort set_objectEntries)
  then have "w \<in> fst ` set (foldl (countWord minLength) [] ?ws)" by force
  then show ?thesis using keys_foldl_countWord [of minLength "[]" ?ws] by auto
qed

lemma analyzeWordFrequency_aaa_bbb_ccc:
  "analyzeWordFrequency ''aaa bbb ccc'' 2 (- 1) = [(''aaa'', Num 1), (''bbb'', Num 1)]"
  by (simp add: analyzeWordFrequency_def normalizeText_def trim_def extractWords_def
      objectEntries_def jsSort_def runAt_def replaceAll.simps(2) countWord_def setProperty_def
      getProperty_def isArrayIndex_def compareCounts_def sliceFromStart_def char_eval)

text \<open>
  C8 claims, for every \<open>maxWords\<close>, that the returned sequence has at most \<open>maxWords\<close>
  entries. \<^verbatim>\<open>slice(0, maxWords)\<close> counts a negative \<open>maxWords\<close> from the end of the array:
  with \<open>maxWords = -1\<close> the three words of \<^verbatim>\<open>aaa bbb ccc\<close> give two entries.
\<close>

theorem analyzeWordFrequency_negative_maxWords:
  "\<not> int (length (analyzeWordFrequency ''aaa bbb ccc'' 2 (- 1))) \<le> - 1"
  by (simp add: analyzeWordFrequency_aaa_bbb_ccc)

text \<open>
  C8, amended: for every text and every \<open>minLength\<close>, when \<open>maxWords\<close> is not negative the
  returned sequence has at most \<open>maxWords\<close> entries; for every \<open>maxWords\<close>, negative or
  not, every word in it is longer than \<open>minLength\<close> and is its own lower case, and the
  empty text gives the empty sequence.
\<close>

theorem analyzeWordFrequency_bounds:
  "(0 \<le> maxWords \<longrightarrow> int (length (analyzeWordFrequency text minLength maxWords)) \<le> maxWords)
   \<and> (\<forall>(w, c) \<in> set (analyzeWordFrequency text minLength maxWords).
        minLength < length w \<and> toLowerCase w = w)
   \<and> analyzeWordFrequency [] minLength maxWords = []"
proof (intro conjI)
  show "0 \<le> maxWords \<longrightarrow> int (length (analyzeWordFrequency text minLength maxWords)) \<le> maxWords"
    by (simp add: analyzeWordFrequency_def Let_def length_sliceFromStart)
  show "\<forall>(w, c) \<in> set (analyzeWordFrequency text minLength maxWords).
        minLength < length w \<and> toLowerCase w = w"
  proof clarify
    fix w c
    assume a: "(w, c) \<in> set (analyzeWordFrequency text minLength maxWords)"
    then have w: "w \<in> set (wordMatches (normalizeText text))" and l: "minLength < length w"
      using analyzeWordFrequency_words by (auto simp: extractWords_eq)
    have "\<And>x. x \<in> set w \<Longrightarrow> toLowerChar x = x"
      using wordMatches_chars [OF w] normalizeText_chars by blast
    then have "toLowerCase w = w" by (rule toLowerCase_fixed)
    then show "minLength < length w \<and> toLowerCase w = w" using l by simp
  qed
  show "analyzeWordFrequency [] minLength maxWords = []"
    by (simp add: analyzeWordFrequency_def normalizeText_def toLowerCase_def trim_def
        extractWords_def objectEntries_def jsSort_def sliceFromStart_def)
qed

theorem analyzeWordFrequency_bounds_witness:
  "analyzeWordFrequency ''The the quick'' 2 1 = [(''the'', Num 2)]
   \<and> (0::int) \<le> 1 \<and> int (length (analyzeWordFrequency ''The the quick'' 2 1)) \<le> 1
   \<and> 2 < length ''the'' \<and> toLowerCase ''the'' = ''the''"
  using analyzeWordFrequency_bounds [of 1 "''The the quick''" 2]
  by (simp add: analyzeWordFrequency_def normalizeText_def trim_def extractWords_def
      objectEntries_def jsSort_def runAt_def replaceAll.simps(2) countWord_def setProperty_def
      getProperty_def isArrayIndex_def compareCounts_def sliceFromStart_def char_eval)


section \<open>The order of the frequency table\<close>

subsection \<open>The counting loop\<close>

lemma firstIndex_in:
  "a \<in> set pre \<Longrightarrow> firstIndex (pre @ xs) a = firstIndex pre a"
  by (simp add: firstIndex_def)

lemma firstIndex_less: "a \<in> set pre \<Longrightarrow> firstIndex pre a < length pre"
  by (induction pre) (auto simp: firstIndex_def)

lemma firstIndex_notin: "a \<notin> set pre \<Longrightarrow> firstIndex (pre @ [a]) a = length pre"
  by (induction pre) (auto simp: firstIndex_def)

lemma values_update:
  "\<forall>v \<in> snd ` set al. \<exists>n. v = Num n
     \<Longrightarrow> \<forall>v \<in> snd ` set (AList.update k (Num j) al). \<exists>n. v = Num n"
  by (induction al) auto

lemma countWord_inv:
  assumes inv: "freqInv m pre obj" and w: "m < length w \<longrightarrow> w \<noteq> ''constructor''"
  shows "freqInv m (pre @ [w]) (countWord m obj w)"
proof -
  have d: "distinct (map fst obj)" and v: "\<forall>v \<in> snd ` set obj. \<exists>n. v = Num n"
    and sub: "set (map fst obj) \<subseteq> set pre"
    and all: "\<forall>w \<in> set pre. m < length w \<and> w \<noteq> ''__proto__'' \<longrightarrow> w \<in> set (map fst obj)"
    and srt: "sorted_wrt (\<lambda>a b. firstIndex pre a < firstIndex pre b) (map fst obj)"
    using inv by (auto simp: freqInv_def)
  have srt': "sorted_wrt (\<lambda>a b. firstIndex (pre @ [w]) a < firstIndex (pre @ [w]) b) (map fst obj)"
  proof (rule sorted_wrt_mono_rel [OF _ srt])
    fix a b
    assume "a \<in> set (map fst obj)" "b \<in> set (map fst obj)"
      and "firstIndex pre a < firstIndex pre b"
    then show "firstIndex (pre @ [w]) a < firstIndex (pre @ [w]) b"
      using sub firstIndex_in [of _ pre "[w]"] by (metis subsetD)
  qed
  show ?thesis
  proof (cases "m < length w \<and> w \<noteq> ''__proto__''")
    case False
    then have "countWord m obj w = obj" by (auto simp: countWord_def setProperty_def)
    then show ?thesis using d v sub all srt' False by (auto simp: freqInv_def)
  next
    case True
    then have nc: "w \<noteq> ''constructor''" and np: "w \<noteq> ''__proto__''" and len: "m < length w"
      using w by auto
    show ?thesis
    proof (cases "w \<in> set (map fst obj)")
      case True
      then obtain x where x: "map_of obj w = Some x"
        by (metis map_of_eq_None_iff not_None_eq set_map)
      then have "x \<in> snd ` set obj" by (metis map_of_SomeD image_eqI snd_conv)
      then obtain n where n: "x = Num n" using v by auto
      have cw: "countWord m obj w = AList.update w (Num (n + 1)) obj"
        using len np x n by (simp add: countWord_def setProperty_def getProperty_def)
      have k: "map fst (countWord m obj w) = map fst obj"
        using True by (simp add: cw update_keys)
      have "\<forall>v \<in> snd ` set (countWord m obj w). \<exists>n. v = Num n"
        using values_update [OF v] unfolding cw by blast
      then show ?thesis using d sub all srt' k True unfolding freqInv_def
        by auto
    next
      case False
      then have x: "map_of obj w = None" by (simp add: map_of_eq_None_iff)
      have cw: "countWord m obj w = AList.update w (Num 1) obj"
        using len np nc x by (simp add: countWord_def setProperty_def getProperty_def)
      have k: "map fst (countWord m obj w) = map fst obj @ [w]"
        using False by (simp add: cw update_keys)
      have vals: "\<forall>v \<in> snd ` set (countWord m obj w). \<exists>n. v = Num n"
        using values_update [OF v] unfolding cw by blast
      have wpre: "w \<notin> set pre" using all len np False by auto
      have "\<forall>a \<in> set (map fst obj). firstIndex (pre @ [w]) a < firstIndex (pre @ [w]) w"
        using sub by (auto simp: firstIndex_in firstIndex_notin [OF wpre] firstIndex_less)
      then have "sorted_wrt (\<lambda>a b. firstIndex (pre @ [w]) a < firstIndex (pre @ [w]) b)
          (map fst obj @ [w])"
        using srt' by (simp add: sorted_wrt_append)
      then show ?thesis using d sub all k vals False unfolding freqInv_def
        by auto
    qed
  qed
qed

lemma foldl_countWord_inv:
  "freqInv m pre obj \<Longrightarrow> ''constructor'' \<notin> set (filter (\<lambda>w. m < length w) ws)
     \<Longrightarrow> freqInv m (pre @ ws) (foldl (countWord m) obj ws)"
proof (induction ws arbitrary: pre obj)
  case Nil
  then show ?case by simp
next
  case (Cons w ws)
  have "freqInv m (pre @ [w]) (countWord m obj w)"
    using Cons.prems by (auto intro!: countWord_inv)
  then have "freqInv m ((pre @ [w]) @ ws) (foldl (countWord m) (countWord m obj w) ws)"
    using Cons.prems by (intro Cons.IH) (auto split: if_splits)
  then show ?case by simp
qed

lemma freqInv_empty: "freqInv m [] []"
  by (simp add: freqInv_def)


subsection \<open>Array indices have distinct values\<close>

lemma decimalValue_snoc:
  "decimalValue (w @ [c]) = 10 * decimalValue w + (of_char c - 48)"
  by (simp add: decimalValue_def)

lemma digit_value: "isDigit c \<Longrightarrow> (of_char c :: nat) - 48 < 10"
  by (auto simp: isDigit_def Let_def)

lemma digit_value_0: "isDigit c \<Longrightarrow> (of_char c :: nat) - 48 = 0 \<Longrightarrow> c = CHR ''0''"
proof -
  assume "isDigit c" "(of_char c :: nat) - 48 = 0"
  then have "(of_char c :: nat) = of_char CHR ''0''" by (auto simp: isDigit_def Let_def)
  then show ?thesis by (simp only: of_char_eq_iff)
qed

lemma digit_value_inj:
  assumes "isDigit c" "isDigit d" "(of_char c :: nat) - 48 = of_char d - 48"
  shows "c = d"
proof -
  have "(of_char c :: nat) = of_char d"
    using assms unfolding isDigit_def Let_def by linarith
  then show ?thesis by (simp only: of_char_eq_iff)
qed

lemma decimalValue_pos:
  "list_all isDigit w \<Longrightarrow> w \<noteq> [] \<Longrightarrow> hd w \<noteq> CHR ''0'' \<Longrightarrow> 0 < decimalValue w"
proof (induction w rule: rev_induct)
  case Nil
  then show ?case by simp
next
  case (snoc c v)
  show ?case
  proof (cases "v = []")
    case True
    then have "isDigit c" "c \<noteq> CHR ''0''" using snoc.prems by auto
    then have "(of_char c :: nat) - 48 \<noteq> 0" using digit_value_0 by blast
    then show ?thesis using True by (simp add: decimalValue_def)
  next
    case False
    then have "0 < decimalValue v" using snoc by (auto simp: hd_append)
    then show ?thesis by (simp add: decimalValue_snoc)
  qed
qed

lemma decimalValue_inj_aux:
  "list_all isDigit w \<Longrightarrow> list_all isDigit w' \<Longrightarrow> w = [] \<or> hd w \<noteq> CHR ''0''
     \<Longrightarrow> w' = [] \<or> hd w' \<noteq> CHR ''0'' \<Longrightarrow> decimalValue w = decimalValue w' \<Longrightarrow> w = w'"
proof (induction w arbitrary: w' rule: rev_induct)
  case Nil
  have "decimalValue w' = 0" using Nil by (simp add: decimalValue_def)
  then show ?case using Nil decimalValue_pos [of w'] by auto
next
  case (snoc c v)
  have pos: "0 < decimalValue (v @ [c])"
    using snoc.prems by (intro decimalValue_pos) auto
  then have "w' \<noteq> []" using snoc.prems(5) by (auto simp: decimalValue_def)
  then obtain v' c' where w': "w' = v' @ [c']" by (metis rev_exhaust)
  have dc: "isDigit c" "isDigit c'" and dv: "list_all isDigit v" "list_all isDigit v'"
    using snoc.prems w' by auto
  define x y where "x = (of_char c :: nat) - 48" and "y = (of_char c' :: nat) - 48"
  have eq: "10 * decimalValue v + x = 10 * decimalValue v' + y"
    using snoc.prems(5) by (simp add: w' decimalValue_snoc x_def y_def)
  have lt: "x < 10" "y < 10"
    using dc digit_value by (auto simp: x_def y_def)
  have v: "decimalValue v = decimalValue v'"
    using eq lt by linarith
  then have "x = y" using eq by simp
  then have c: "(of_char c :: nat) - 48 = of_char c' - 48" by (simp add: x_def y_def)
  have "v = [] \<or> hd v \<noteq> CHR ''0''" "v' = [] \<or> hd v' \<noteq> CHR ''0''"
    using snoc.prems(3,4) w' by (auto simp: hd_append split: if_splits)
  then have "v = v'" using snoc.IH dv v by blast
  moreover have "c = c'" using dc c by (rule digit_value_inj)
  ultimately show ?case using w' by simp
qed

lemma decimalValue_inj:
  assumes "isArrayIndex a" "isArrayIndex b" "decimalValue a = decimalValue b"
  shows "a = b"
proof -
  have z: "w = ''0''" if "isArrayIndex w" "decimalValue w = 0" for w
  proof (rule ccontr)
    assume "w \<noteq> ''0''"
    then have "list_all isDigit w" "w \<noteq> []" "hd w \<noteq> CHR ''0''"
      using that(1) by (auto simp: isArrayIndex_def)
    then have "0 < decimalValue w" by (rule decimalValue_pos)
    then show False using that(2) by simp
  qed
  show ?thesis
  proof (cases "a = ''0'' \<or> b = ''0''")
    case True
    then have "decimalValue a = 0" "decimalValue b = 0"
      using assms(3) by (auto simp: decimalValue_def)
    then have "a = ''0''" "b = ''0''" using z assms(1,2) by blast+
    then show ?thesis by simp
  next
    case False
    then show ?thesis using assms by (intro decimalValue_inj_aux) (auto simp: isArrayIndex_def)
  qed
qed


subsection \<open>The order of the entries\<close>

lemma objectEntries_keyOrder:
  assumes d: "distinct (map fst obj)"
    and srt: "sorted_wrt (\<lambda>a b. firstIndex ws a < firstIndex ws b) (map fst obj)"
  shows "sorted_wrt (\<lambda>x y. keyOrder ws (fst x) (fst y)) (objectEntries obj)"
proof -
  let ?I = "filter (\<lambda>e. isArrayIndex (fst e)) obj"
  let ?N = "filter (\<lambda>e. \<not> isArrayIndex (fst e)) obj"
  let ?f = "\<lambda>e. decimalValue (fst e)"
  let ?S = "sort_key ?f ?I"
  have "distinct (map fst ?I)" using d by (simp add: distinct_map_filter)
  moreover have "inj_on decimalValue (set (map fst ?I))"
    by (rule inj_onI) (auto intro: decimalValue_inj)
  ultimately have "distinct (map decimalValue (map fst ?I))"
    by (simp only: distinct_map)
  then have "distinct (map ?f ?I)" by (simp add: comp_def)
  then have "distinct (map ?f ?S)" by (simp only: distinct_map set_sort distinct_sort)
  moreover have "sorted (map ?f ?S)" by simp
  ultimately have "sorted_wrt (<) (map ?f ?S)" by (simp add: strict_sorted_iff)
  then have "sorted_wrt (\<lambda>x y. ?f x < ?f y) ?S" by (simp add: sorted_wrt_map)
  then have i: "sorted_wrt (\<lambda>x y. keyOrder ws (fst x) (fst y)) ?S"
    by (rule sorted_wrt_mono_rel [rotated]) (auto simp: keyOrder_def)
  have "sorted_wrt (\<lambda>x y. firstIndex ws (fst x) < firstIndex ws (fst y)) obj"
    using srt by (simp add: sorted_wrt_map)
  then have "sorted_wrt (\<lambda>x y. firstIndex ws (fst x) < firstIndex ws (fst y)) ?N"
    by (rule sorted_wrt_filter)
  then have n: "sorted_wrt (\<lambda>x y. keyOrder ws (fst x) (fst y)) ?N"
    by (rule sorted_wrt_mono_rel [rotated]) (auto simp: keyOrder_def)
  have "\<forall>x \<in> set ?S. \<forall>y \<in> set ?N. keyOrder ws (fst x) (fst y)"
    by (auto simp: keyOrder_def)
  then show ?thesis using i n by (simp add: objectEntries_def sorted_wrt_append)
qed

subsection \<open>The sort is stable\<close>

lemma compareCounts_Num:
  "snd x = Num a \<Longrightarrow> snd y = Num b \<Longrightarrow> compareCounts x y \<le> 0 \<longleftrightarrow> b \<le> a"
  by (simp add: compareCounts_def)

lemma insertBy_sorted:
  assumes nums: "\<forall>y \<in> set ys. \<exists>n. snd y = Num n" and x: "snd x = Num a"
    and bef: "\<forall>y \<in> set ys. B x y"
  shows "sorted_wrt (\<lambda>x y. countGe (snd x) (snd y) \<and> (snd x = snd y \<longrightarrow> B x y)) ys
     \<Longrightarrow> sorted_wrt (\<lambda>x y. countGe (snd x) (snd y) \<and> (snd x = snd y \<longrightarrow> B x y))
           (insertBy compareCounts x ys)"
  using nums bef
proof (induction ys)
  case Nil
  show ?case by simp
next
  case (Cons y ys)
  obtain b where b: "snd y = Num b" using Cons.prems by auto
  show ?case
  proof (cases "b \<le> a")
    case True
    have "\<forall>z \<in> set ys. countGe (snd x) (snd z)"
    proof
      fix z assume z: "z \<in> set ys"
      then obtain c where c: "snd z = Num c" using Cons.prems by auto
      have "countGe (snd y) (snd z)" using Cons.prems(1) z by simp
      then show "countGe (snd x) (snd z)" using True b c x by simp
    qed
    then show ?thesis using True Cons.prems b x
      by (simp add: compareCounts_Num [OF x b])
  next
    case False
    have "sorted_wrt (\<lambda>x y. countGe (snd x) (snd y) \<and> (snd x = snd y \<longrightarrow> B x y))
        (insertBy compareCounts x ys)"
      using Cons by simp
    then show ?thesis using False Cons.prems b x
      by (auto simp: compareCounts_Num [OF x b] set_insertBy)
  qed
qed

lemma jsSort_sorted:
  "\<forall>y \<in> set xs. \<exists>n. snd y = Num n \<Longrightarrow> sorted_wrt B xs
     \<Longrightarrow> sorted_wrt (\<lambda>x y. countGe (snd x) (snd y) \<and> (snd x = snd y \<longrightarrow> B x y))
           (jsSort compareCounts xs)"
proof (induction xs)
  case Nil
  show ?case by (simp add: jsSort_def)
next
  case (Cons x xs)
  obtain a where a: "snd x = Num a" using Cons.prems by auto
  have s: "sorted_wrt (\<lambda>x y. countGe (snd x) (snd y) \<and> (snd x = snd y \<longrightarrow> B x y))
      (jsSort compareCounts xs)"
    using Cons by simp
  have "jsSort compareCounts (x # xs) = insertBy compareCounts x (jsSort compareCounts xs)"
    by (simp add: jsSort_def)
  moreover have "sorted_wrt (\<lambda>x y. countGe (snd x) (snd y) \<and> (snd x = snd y \<longrightarrow> B x y))
      (insertBy compareCounts x (jsSort compareCounts xs))"
    using Cons.prems by (intro insertBy_sorted [OF _ a _ s]) (auto simp: set_jsSort)
  ultimately show ?case by simp
qed

lemma sorted_wrt_take: "sorted_wrt P xs \<Longrightarrow> sorted_wrt P (take n xs)"
  by (metis append_take_drop_id sorted_wrt_append)

lemma sorted_wrt_sliceFromStart: "sorted_wrt P xs \<Longrightarrow> sorted_wrt P (sliceFromStart xs e)"
  by (simp add: sliceFromStart_def Let_def sorted_wrt_take)

lemmas freq_eval =
  analyzeWordFrequency_def normalizeText_def trim_def extractWords_def objectEntries_def
  jsSort_def runAt_def replaceAll.simps(2) countWord_def setProperty_def getProperty_def
  isArrayIndex_def compareCounts_def decimalValue_def sliceFromStart_def char_eval

lemma analyzeWordFrequency_bbb_200_100:
  "analyzeWordFrequency ''bbb 200 100'' 2 10 =
     [(''100'', Num 1), (''200'', Num 1), (''bbb'', Num 1)]"
  by (simp add: freq_eval)

lemma extractWords_bbb_200_100:
  "extractWords (normalizeText ''bbb 200 100'') = [''bbb'', ''200'', ''100'']"
  by (simp add: freq_eval)

lemma analyzeWordFrequency_bbb_twice:
  "analyzeWordFrequency ''bbb 200 100 bbb aaa'' 2 10 =
     [(''bbb'', Num 2), (''100'', Num 1), (''200'', Num 1), (''aaa'', Num 1)]"
  by (simp add: freq_eval)

text \<open>
  The word \<^verbatim>\<open>constructor\<close> is found on \<^verbatim>\<open>Object.prototype\<close> before it is ever counted,
  so its count is a string, which the comparator reads as \<^verbatim>\<open>NaN\<close>: the entry stays
  where the sort finds it, whatever the number of occurrences.
\<close>

lemma analyzeWordFrequency_constructor:
  "analyzeWordFrequency ''aaa constructor constructor'' 2 10 =
     [(''aaa'', Num 1), (''constructor'', Str ''function Object() { [native code] }11'')]"
  by (simp add: freq_eval objectFnString_def)

text \<open>
  C5 claims that the returned sequence is sorted by count descending and that entries
  with equal counts appear in the order in which their words were first encountered. The
  code lists the entries with \<^verbatim>\<open>Object.entries\<close> before the stable sort, and an object
  lists its array-index keys first: for \<^verbatim>\<open>bbb 200 100\<close> all three counts are 1 and the
  result is \<^verbatim>\<open>100\<close>, \<^verbatim>\<open>200\<close>, \<^verbatim>\<open>bbb\<close>, the reverse of the encounter order.
\<close>

theorem analyzeWordFrequency_ties_not_encounter_order:
  "\<not> descendingWithTies (encounterOrder (extractWords (normalizeText ''bbb 200 100'')))
       (analyzeWordFrequency ''bbb 200 100'' 2 10)"
  by (simp add: analyzeWordFrequency_bbb_200_100 extractWords_bbb_200_100
      descendingWithTies_def encounterOrder_def firstIndex_def)

text \<open>
  C5, amended: when \<^verbatim>\<open>constructor\<close> is not among the counted words (the words longer than
  \<open>minLength\<close>), the returned sequence is sorted by count descending, and entries with
  equal counts appear in the key order of the frequency object: the words that are array
  indices (decimal numerals below \<open>2^32 - 1\<close> without a leading zero) first, ascending by
  value, then the other words in the order in which they were first encountered.
\<close>

theorem analyzeWordFrequency_order:
  assumes "''constructor'' \<notin>
           set (filter (\<lambda>w. minLength < length w) (extractWords (normalizeText text)))"
  shows "descendingWithTies (keyOrder (extractWords (normalizeText text)))
           (analyzeWordFrequency text minLength maxWords)"
proof -
  let ?ws = "extractWords (normalizeText text)"
  let ?obj = "foldl (countWord minLength) [] ?ws"
  have "freqInv minLength ([] @ ?ws) ?obj"
    using freqInv_empty assms by (rule foldl_countWord_inv)
  then have d: "distinct (map fst ?obj)" and v: "\<forall>y \<in> set ?obj. \<exists>n. snd y = Num n"
    and srt: "sorted_wrt (\<lambda>a b. firstIndex ?ws a < firstIndex ?ws b) (map fst ?obj)"
    by (auto simp: freqInv_def)
  have "sorted_wrt (\<lambda>x y. keyOrder ?ws (fst x) (fst y)) (objectEntries ?obj)"
    using d srt by (rule objectEntries_keyOrder)
  then have "sorted_wrt (\<lambda>x y. countGe (snd x) (snd y)
        \<and> (snd x = snd y \<longrightarrow> keyOrder ?ws (fst x) (fst y)))
      (jsSort compareCounts (objectEntries ?obj))"
    using v by (intro jsSort_sorted) (auto simp: set_objectEntries)
  then show ?thesis
    by (simp add: descendingWithTies_def analyzeWordFrequency_def Let_def
        sorted_wrt_sliceFromStart)
qed

theorem analyzeWordFrequency_order_witness:
  "''constructor'' \<notin>
     set (filter (\<lambda>w. 2 < length w) (extractWords (normalizeText ''bbb 200 100 bbb aaa'')))
   \<and> analyzeWordFrequency ''bbb 200 100 bbb aaa'' 2 10 =
       [(''bbb'', Num 2), (''100'', Num 1), (''200'', Num 1), (''aaa'', Num 1)]
   \<and> descendingWithTies (keyOrder (extractWords (normalizeText ''bbb 200 100 bbb aaa'')))
       (analyzeWordFrequency ''bbb 200 100 bbb aaa'' 2 10)"
proof -
  have h: "''constructor'' \<notin>
      set (filter (\<lambda>w. 2 < length w) (extractWords (normalizeText ''bbb 200 100 bbb aaa'')))"
    by (simp add: freq_eval)
  show ?thesis
    using h analyzeWordFrequency_order [OF h, of 10] analyzeWordFrequency_bbb_twice by simp
qed

end
